theory Spec2Isabelle
  imports Main "HOL-Library.Multiset" "HOL-Library.Word"
begin

section \<open>The hand-off queue (\<open>LockFreeQueue\<close>, include/hft_server.hpp)\<close>

text \<open>
  The queue is a pool of pre-allocated nodes. A \<open>Node*\<close> is modelled as an index into
  the pool (\<open>None\<close> is \<open>nullptr\<close>); \<open>std::atomic\<close> loads and stores are plain reads
  and writes, each operation being run here without interruption.
\<close>

record 'a Node =
  data :: 'a
  next_node :: "nat option"

record 'a LockFreeQueue =
  head :: nat
  tail :: nat
  pool :: "'a Node list"
  pool_index :: "64 word"

text \<open>
  The constructor: every node default-constructed (\<open>dflt\<close> is the default value of
  \<open>T\<close>), \<open>head = tail = pool[0]\<close>. With \<open>pool_size = 0\<close> the read of \<open>pool[0]\<close> is out
  of range; the model returns \<open>None\<close> there.
\<close>

definition LockFreeQueue_new :: "'a \<Rightarrow> nat \<Rightarrow> 'a LockFreeQueue option" where
  "LockFreeQueue_new dflt pool_size =
     (if pool_size = 0 then None
      else Some \<lparr>head = 0, tail = 0,
                 pool = replicate pool_size \<lparr>data = dflt, next_node = None\<rparr>,
                 pool_index = 0\<rparr>)"

text \<open>
  \<open>get_node\<close>: \<open>pool_index.fetch_add(1) % pool.size()\<close>; the counter is a \<open>size_t\<close>,
  a 64-bit word whose increment wraps. The pointer returned is \<open>pool[index].get()\<close>.
\<close>

definition get_node :: "'a LockFreeQueue \<Rightarrow> nat option \<times> 'a LockFreeQueue" where
  "get_node q =
     (let index = unat (pool_index q) mod length (pool q)
      in (Some index, q\<lparr>pool_index := pool_index q + 1\<rparr>))"

definition enqueue :: "'a \<Rightarrow> 'a LockFreeQueue \<Rightarrow> bool \<times> 'a LockFreeQueue" where
  "enqueue item q =
     (case get_node q of
        (None, q1) \<Rightarrow> (False, q1)
      | (Some node, q1) \<Rightarrow>
          (let q2 = q1\<lparr>pool := (pool q1)[node := \<lparr>data = item, next_node = None\<rparr>]\<rparr>;
               old_tail = tail q2;
               q3 = q2\<lparr>tail := node\<rparr>;
               q4 = q3\<lparr>pool := (pool q3)[old_tail := (pool q3 ! old_tail)\<lparr>next_node := Some node\<rparr>]\<rparr>
           in (True, q4)))"

definition dequeue :: "'a LockFreeQueue \<Rightarrow> 'a option \<times> 'a LockFreeQueue" where
  "dequeue q =
     (let old_head = head q;
          new_head = next_node (pool q ! old_head)
      in case new_head of
           None \<Rightarrow> (None, q)
         | Some nh \<Rightarrow> (Some (data (pool q ! nh)), q\<lparr>head := nh\<rparr>))"

text \<open>
  The steps of \<open>dequeue\<close> on the shared queue: it first loads \<open>head\<close> and the \<open>next\<close>
  of that node, and later, if that is not null, reads the item and stores the new
  \<open>head\<close>. \<open>dequeue_race\<close> is the schedule of two threads in which both make their
  loads before either stores.
\<close>

definition dequeue_read :: "'a LockFreeQueue \<Rightarrow> nat option" where
  "dequeue_read q = next_node (pool q ! head q)"

definition dequeue_write :: "nat option \<Rightarrow> 'a LockFreeQueue \<Rightarrow> 'a option \<times> 'a LockFreeQueue" where
  "dequeue_write new_head q =
     (case new_head of
        None \<Rightarrow> (None, q)
      | Some nh \<Rightarrow> (Some (data (pool q ! nh)), q\<lparr>head := nh\<rparr>))"

definition dequeue_race :: "'a LockFreeQueue \<Rightarrow> 'a option \<times> 'a option \<times> 'a LockFreeQueue" where
  "dequeue_race q =
     (let new_head1 = dequeue_read q;
          new_head2 = dequeue_read q;
          (item1, q1) = dequeue_write new_head1 q;
          (item2, q2) = dequeue_write new_head2 q1
      in (item1, item2, q2))"

text \<open>The queue after a sequence of enqueues, and the results of \<open>n\<close> successive dequeues.\<close>

fun enqueue_all :: "'a list \<Rightarrow> 'a LockFreeQueue \<Rightarrow> 'a LockFreeQueue" where
  "enqueue_all [] q = q"
| "enqueue_all (x # xs) q = enqueue_all xs (snd (enqueue x q))"

fun dequeue_n :: "nat \<Rightarrow> 'a LockFreeQueue \<Rightarrow> 'a option list" where
  "dequeue_n 0 q = []"
| "dequeue_n (Suc n) q = (case dequeue q of (r, q') \<Rightarrow> r # dequeue_n n q')"

text \<open>The empty queue of capacity 3 used in the examples below.\<close>

definition queue3 :: "nat LockFreeQueue" where
  "queue3 = \<lparr>head = 0, tail = 0,
             pool = replicate 3 \<lparr>data = 0, next_node = None\<rparr>, pool_index = 0\<rparr>"


section \<open>Strings (\<open>std::string\<close>)\<close>

text \<open>
  The ways in which a call does not return normally: the two exceptions the program can
  throw, and the read of a local variable that was never written, after which the C++
  standard says nothing about the program (undefined behaviour).
\<close>

datatype exn = out_of_range | runtime_error string | uninitialized_read

text \<open>
  \<open>what\<close> of an exception. The text of the library's \<open>out_of_range\<close> is
  implementation-defined; no path of the program reads it. \<open>uninitialized_read\<close> is
  no exception and is never caught.
\<close>

fun what :: "exn \<Rightarrow> string" where
  "what (runtime_error m) = m"
| "what out_of_range = ''basic_string::substr''"
| "what uninitialized_read = []"

text \<open>White space of the classic locale, as \<open>\s\<close> of \<open>std::regex\<close> and the stream
  extractors of \<open>std::istringstream\<close> see it.\<close>

definition is_space :: "char \<Rightarrow> bool" where
  "is_space c \<longleftrightarrow> c \<in> set [CHR '' '', CHR 0x09, CHR 0x0A, CHR 0x0B, CHR 0x0C, CHR 0x0D]"

definition starts_with :: "string \<Rightarrow> string \<Rightarrow> bool" where
  "starts_with pat s \<longleftrightarrow> take (length pat) s = pat"

text \<open>\<open>s.find(pat)\<close>: the first index at which \<open>pat\<close> occurs, \<open>None\<close> for \<open>npos\<close>.\<close>

fun str_find :: "string \<Rightarrow> string \<Rightarrow> nat option" where
  "str_find [] pat = (if pat = [] then Some 0 else None)"
| "str_find (c # cs) pat =
     (if starts_with pat (c # cs) then Some 0 else map_option Suc (str_find cs pat))"

text \<open>\<open>s.find(pat, pos)\<close>.\<close>

definition str_find_from :: "string \<Rightarrow> string \<Rightarrow> nat \<Rightarrow> nat option" where
  "str_find_from s pat pos =
     (if length s < pos then None else map_option (\<lambda>i. pos + i) (str_find (drop pos s) pat))"

text \<open>\<open>s.substr(pos)\<close> and \<open>s.substr(pos, n)\<close>: both throw \<open>std::out_of_range\<close> when
  \<open>pos > s.size()\<close>.\<close>

definition substr :: "string \<Rightarrow> nat \<Rightarrow> exn + string" where
  "substr s pos = (if length s < pos then Inl out_of_range else Inr (drop pos s))"

definition substr_n :: "string \<Rightarrow> nat \<Rightarrow> nat \<Rightarrow> exn + string" where
  "substr_n s pos n = (if length s < pos then Inl out_of_range else Inr (take n (drop pos s)))"

section \<open>Services (src/services.cpp)\<close>

subsection \<open>EchoService\<close>

definition EchoService_processRequest :: "string \<Rightarrow> exn + string" where
  "EchoService_processRequest request =
     (case str_find request ''ECHO'' of
        Some echoPos \<Rightarrow>
          (case substr request (echoPos + 5) of
             Inl e \<Rightarrow> Inl e
           | Inr rest \<Rightarrow> Inr (''ECHO: '' @ rest))
      | None \<Rightarrow> Inr [])"

subsection \<open>CalculatorService\<close>

text \<open>
  The calculator reads \<open>double\<close>s from a \<open>std::istringstream\<close> and prints the result with
  \<open>std::to_string\<close>. The number type and these library operations are parameters of the
  model. \<open>get_double\<close> is the library's parse of a floating-point literal at the start of
  its argument: \<open>Number v n\<close> when a literal of \<open>n\<close> characters with the value \<open>v\<close> is
  read, \<open>Overflow v\<close> when a literal is read whose value is out of the range of
  \<open>double\<close> (the library then stores the largest or smallest double \<open>v\<close> and fails the
  stream), \<open>NoNumber\<close> when there is no literal (the library then stores zero and fails
  the stream).
\<close>

datatype 'd parsed = Number 'd nat | Overflow 'd | NoNumber

record 'd double_ops =
  get_double :: "string \<Rightarrow> 'd parsed"
  dzero :: 'd
  dneg :: "'d \<Rightarrow> 'd"
  dis_zero :: "'d \<Rightarrow> bool"
  to_string :: "'d \<Rightarrow> string"

text \<open>
  A stream is the text not yet read. \<open>iss >> op\<close> skips white space and reads one
  character; it fails at the end of the text.
\<close>

definition extract_char :: "string \<Rightarrow> (char \<times> string) option" where
  "extract_char s = (case dropWhile is_space s of [] \<Rightarrow> None | c # rest \<Rightarrow> Some (c, rest))"

text \<open>
  \<open>iss >> result\<close> has three outcomes: a number is read (\<open>Ok\<close>); the text is at its end
  after the white space, so that nothing is written to \<open>result\<close> (\<open>Eof\<close>); or the
  extraction fails after the library has written a value to \<open>result\<close> (\<open>Fail\<close> with
  that value: zero when the text does not start with a number, the largest or smallest
  double when the number is out of range). After the last two the stream has failed and
  every later extraction fails.
\<close>

datatype 'd extracted = Ok 'd string | Fail 'd | Eof

definition extract_double :: "('d, 'x) double_ops_scheme \<Rightarrow> string \<Rightarrow> 'd extracted" where
  "extract_double D s =
     (case dropWhile is_space s of
        [] \<Rightarrow> Eof
      | c # rest \<Rightarrow>
          (case get_double D (c # rest) of
             NoNumber \<Rightarrow> Fail (dzero D)
           | Overflow v \<Rightarrow> Fail v
           | Number v n \<Rightarrow> Ok v (drop n (c # rest))))"

lemma extract_char_shorter: "extract_char s = Some (c, rest) \<Longrightarrow> length rest < length s"
proof -
  assume a: "extract_char s = Some (c, rest)"
  then have "dropWhile is_space s = c # rest"
    by (auto simp: extract_char_def split: list.splits)
  moreover have "length (dropWhile is_space s) \<le> length s"
    by (rule length_dropWhile_le)
  ultimately show ?thesis by simp
qed

lemma extract_double_shorter: "extract_double D s = Ok v rest \<Longrightarrow> length rest \<le> length s"
proof -
  assume a: "extract_double D s = Ok v rest"
  then obtain n where "rest = drop n (dropWhile is_space s)"
    by (auto simp: extract_double_def split: list.splits parsed.splits)
  moreover have "length (dropWhile is_space s) \<le> length s"
    by (rule length_dropWhile_le)
  ultimately show ?thesis by simp
qed

text \<open>The loop \<open>while (iss >> op >> result)\<close> of \<open>evaluateExpression\<close>.\<close>

function eval_loop :: "('d, 'x) double_ops_scheme \<Rightarrow> 'd \<Rightarrow> string \<Rightarrow> exn + 'd" where
  "eval_loop D result s =
     (case extract_char s of
        None \<Rightarrow> Inr result
      | Some (op, s1) \<Rightarrow>
          (case extract_double D s1 of
             Eof \<Rightarrow> Inr result
           | Fail v \<Rightarrow> Inr v
           | Ok v s2 \<Rightarrow>
               if op = CHR ''+'' then eval_loop D v s2
               else if op = CHR ''-'' then eval_loop D (dneg D v) s2
               else if op = CHR ''*'' then eval_loop D v s2
               else if op = CHR ''/'' then
                 (if dis_zero D v then Inl (runtime_error ''Division by zero'')
                  else eval_loop D v s2)
               else Inl (runtime_error (''Unknown operator: '' @ [op]))))"
  by pat_completeness auto
termination
proof (relation "measure (\<lambda>(D, result, s). length s)")
  show "wf (measure (\<lambda>(D, result, s). length s))" by simp
qed (auto dest!: extract_char_shorter extract_double_shorter)

declare eval_loop.simps [simp del]

text \<open>
  \<open>evaluateExpression\<close>: the local \<open>double result\<close> has no initial value. When the
  expression is empty or white space, the first extraction writes nothing, the loop is
  not entered and \<open>return result\<close> reads the variable that was never written.
\<close>

definition evaluateExpression :: "('d, 'x) double_ops_scheme \<Rightarrow> string \<Rightarrow> exn + 'd" where
  "evaluateExpression D expression =
     (case extract_double D expression of
        Ok v rest \<Rightarrow> eval_loop D v rest
      | Fail v \<Rightarrow> Inr v
      | Eof \<Rightarrow> Inl uninitialized_read)"

text \<open>\<open>substr\<close> is called before the \<open>try\<close> block; the \<open>catch\<close> takes every
  \<open>std::exception\<close> of \<open>evaluateExpression\<close>.\<close>

definition CalculatorService_processRequest ::
    "('d, 'x) double_ops_scheme \<Rightarrow> string \<Rightarrow> exn + string" where
  "CalculatorService_processRequest D request =
     (case str_find request ''CAL'' of
        Some calPos \<Rightarrow>
          (case substr request (calPos + 4) of
             Inl e \<Rightarrow> Inl e
           | Inr expression \<Rightarrow>
               (case evaluateExpression D expression of
                  Inr result \<Rightarrow> Inr (''RESULT: '' @ to_string D result)
                | Inl uninitialized_read \<Rightarrow> Inl uninitialized_read
                | Inl e \<Rightarrow> Inr (''ERROR: '' @ what e)))
      | None \<Rightarrow> Inr [])"

subsection \<open>FileService\<close>

text \<open>
  The file system: \<open>files\<close> gives the content of each file that \<open>std::ifstream\<close> can
  open (\<open>None\<close>: missing or unopenable), \<open>creatable\<close> says whether \<open>std::ofstream\<close> can
  open the name for writing.
\<close>

record filesystem =
  files :: "string \<Rightarrow> string option"
  creatable :: "string \<Rightarrow> bool"

definition readFile :: "filesystem \<Rightarrow> string \<Rightarrow> string" where
  "readFile fs filename =
     (case files fs filename of
        None \<Rightarrow> ''ERROR: Could not open file '' @ filename
      | Some content \<Rightarrow> content)"

definition writeFile :: "filesystem \<Rightarrow> string \<Rightarrow> string \<Rightarrow> bool \<times> filesystem" where
  "writeFile fs filename content =
     (if \<not> creatable fs filename then (False, fs)
      else (True, fs\<lparr>files := (files fs)(filename \<mapsto> content)\<rparr>))"

definition FileService_processRequest ::
    "string \<Rightarrow> filesystem \<Rightarrow> exn + (string \<times> filesystem)" where
  "FileService_processRequest request fs =
     (case str_find request ''READ'' of
        Some readPos \<Rightarrow>
          (case substr request (readPos + 5) of
             Inl e \<Rightarrow> Inl e
           | Inr filename \<Rightarrow> Inr (''FILE_CONTENT: '' @ readFile fs filename, fs))
      | None \<Rightarrow>
          (case str_find request ''WRITE'' of
             Some writePos \<Rightarrow>
               (case str_find_from request '' '' (writePos + 6) of
                  Some spacePos \<Rightarrow>
                    (case substr_n request (writePos + 6) (spacePos - (writePos + 6)) of
                       Inl e \<Rightarrow> Inl e
                     | Inr filename \<Rightarrow>
                         (case substr request (spacePos + 1) of
                            Inl e \<Rightarrow> Inl e
                          | Inr content \<Rightarrow>
                              (case writeFile fs filename content of
                                 (True, fs') \<Rightarrow> Inr (''SUCCESS: File written successfully'', fs')
                               | (False, fs') \<Rightarrow> Inr (''ERROR: Failed to write file'', fs'))))
                | None \<Rightarrow> Inr (''ERROR: Invalid write command format'', fs))
           | None \<Rightarrow> Inr ([], fs)))"

subsection \<open>The \<open>IService\<close> interface\<close>

datatype IService = EchoService | CalculatorService | FileService

fun IService_processRequest ::
    "('d, 'x) double_ops_scheme \<Rightarrow> IService \<Rightarrow> string \<Rightarrow> filesystem \<Rightarrow> exn + (string \<times> filesystem)" where
  "IService_processRequest D EchoService request fs =
     (case EchoService_processRequest request of Inl e \<Rightarrow> Inl e | Inr r \<Rightarrow> Inr (r, fs))"
| "IService_processRequest D CalculatorService request fs =
     (case CalculatorService_processRequest D request of Inl e \<Rightarrow> Inl e | Inr r \<Rightarrow> Inr (r, fs))"
| "IService_processRequest D FileService request fs = FileService_processRequest request fs"


section \<open>Interceptors (src/interceptors.cpp)\<close>

text \<open>
  An interceptor object is a value holding its fields. A
  \<open>steady_clock::time_point\<close> is a number of nanoseconds.
\<close>

datatype IInterceptor =
    LoggingInterceptor (startTime: int)
  | AuthenticationInterceptor (validToken: string)
  | RateLimitingInterceptor (maxRequests: int) (currentRequests: int) (lastReset: int)
  | ValidationInterceptor

fun getPriority :: "IInterceptor \<Rightarrow> int" where
  "getPriority (LoggingInterceptor _) = 1"
| "getPriority (AuthenticationInterceptor _) = 0"
| "getPriority (RateLimitingInterceptor _ _ _) = 2"
| "getPriority ValidationInterceptor = 3"

text \<open>
  \<open>std::regex_search(request, match, "TOKEN:([^\\s]+)")\<close>: the leftmost position at
  which \<open>TOKEN:\<close> is followed by at least one character that is not white space; the
  group is the longest run of such characters there.
\<close>

fun regex_search_token :: "string \<Rightarrow> string option" where
  "regex_search_token [] = None"
| "regex_search_token (c # cs) =
     (if starts_with ''TOKEN:'' (c # cs)
         \<and> takeWhile (\<lambda>x. \<not> is_space x) (drop 6 (c # cs)) \<noteq> []
      then Some (takeWhile (\<lambda>x. \<not> is_space x) (drop 6 (c # cs)))
      else regex_search_token cs)"

text \<open>Each \<open>preProcess\<close> takes the request by reference: the model returns it.\<close>

definition LoggingInterceptor_preProcess :: "int \<Rightarrow> string \<Rightarrow> bool \<times> string \<times> IInterceptor" where
  "LoggingInterceptor_preProcess now request = (True, request, LoggingInterceptor now)"

definition AuthenticationInterceptor_preProcess :: "string \<Rightarrow> string \<Rightarrow> bool \<times> string" where
  "AuthenticationInterceptor_preProcess valid request =
     (case regex_search_token request of
        Some token \<Rightarrow> if token = valid then (True, request) else (False, request)
      | None \<Rightarrow> (False, request))"

text \<open>\<open>duration_cast<seconds>\<close> of a number of nanoseconds truncates towards zero.\<close>

definition to_seconds :: "int \<Rightarrow> int" where
  "to_seconds d = (if 0 \<le> d then d div 1000000000 else - ((- d) div 1000000000))"

text \<open>
  \<open>currentRequests++\<close> is reached only with \<open>currentRequests < maxRequests\<close>, so the
  increment of the \<open>int\<close> never overflows.
\<close>

definition RateLimitingInterceptor_preProcess ::
    "int \<Rightarrow> int \<Rightarrow> int \<Rightarrow> int \<Rightarrow> string \<Rightarrow> bool \<times> string \<times> IInterceptor" where
  "RateLimitingInterceptor_preProcess now maxR cur lastT request =
     (let timeSinceReset = to_seconds (now - lastT);
          cur1 = (if timeSinceReset \<ge> 60 then 0 else cur);
          last1 = (if timeSinceReset \<ge> 60 then now else lastT)
      in if cur1 \<ge> maxR then (False, request, RateLimitingInterceptor maxR cur1 last1)
         else (True, request, RateLimitingInterceptor maxR (cur1 + 1) last1))"

definition validCommands :: "string list" where
  "validCommands = [''ECHO'', ''CAL'', ''READ'', ''WRITE'']"

definition ValidationInterceptor_preProcess :: "string \<Rightarrow> bool \<times> string" where
  "ValidationInterceptor_preProcess request =
     (if request = [] then (False, request)
      else if length request > 1000 then (False, request)
      else if \<not> list_ex (\<lambda>cmd. str_find request cmd \<noteq> None) validCommands then (False, request)
      else (True, request))"

text \<open>
  The world outside the server objects: the file system, and the clock. The \<open>n\<close>-th
  reading of \<open>steady_clock::now()\<close> is \<open>clk n\<close> for a function \<open>clk\<close> given from
  outside; the world counts the readings made.
\<close>

record world =
  clock_reads :: nat
  fsys :: filesystem

definition steady_clock_now :: "(nat \<Rightarrow> int) \<Rightarrow> world \<Rightarrow> int \<times> world" where
  "steady_clock_now clk w = (clk (clock_reads w), w\<lparr>clock_reads := Suc (clock_reads w)\<rparr>)"

fun preProcess ::
    "(nat \<Rightarrow> int) \<Rightarrow> IInterceptor \<Rightarrow> string \<Rightarrow> world \<Rightarrow> bool \<times> string \<times> IInterceptor \<times> world" where
  "preProcess clk (LoggingInterceptor st) request w =
     (case steady_clock_now clk w of (now, w') \<Rightarrow>
        (case LoggingInterceptor_preProcess now request of (ok, request', i') \<Rightarrow>
           (ok, request', i', w')))"
| "preProcess clk (AuthenticationInterceptor valid) request w =
     (case AuthenticationInterceptor_preProcess valid request of (ok, request') \<Rightarrow>
        (ok, request', AuthenticationInterceptor valid, w))"
| "preProcess clk (RateLimitingInterceptor maxR cur lastT) request w =
     (case steady_clock_now clk w of (now, w') \<Rightarrow>
        (case RateLimitingInterceptor_preProcess now maxR cur lastT request of (ok, request', i') \<Rightarrow>
           (ok, request', i', w')))"
| "preProcess clk ValidationInterceptor request w =
     (case ValidationInterceptor_preProcess request of (ok, request') \<Rightarrow>
        (ok, request', ValidationInterceptor, w))"

text \<open>\<open>postProcess\<close> takes the response by reference. The logging interceptor reads the
  clock once more; only the validation interceptor writes the response.\<close>

fun postProcess ::
    "(nat \<Rightarrow> int) \<Rightarrow> IInterceptor \<Rightarrow> string \<Rightarrow> string \<Rightarrow> world \<Rightarrow> string \<times> IInterceptor \<times> world" where
  "postProcess clk (LoggingInterceptor st) request response w =
     (case steady_clock_now clk w of (endTime, w') \<Rightarrow> (response, LoggingInterceptor st, w'))"
| "postProcess clk (AuthenticationInterceptor valid) request response w =
     (response, AuthenticationInterceptor valid, w)"
| "postProcess clk (RateLimitingInterceptor maxR cur lastT) request response w =
     (response, RateLimitingInterceptor maxR cur lastT, w)"
| "postProcess clk ValidationInterceptor request response w =
     ((if response = [] then ''ERROR: Empty response'' else response), ValidationInterceptor, w)"

section \<open>The pipeline (\<open>processRequest\<close> of src/server.cpp and of the HFT server)\<close>

text \<open>
  The calls a pipeline execution makes are recorded beside its result: \<open>pre_call k\<close> and
  \<open>post_call k\<close> for \<open>preProcess\<close> and \<open>postProcess\<close> of the \<open>k\<close>-th interceptor of the
  stored sequence, \<open>handler_call j r\<close> for \<open>processRequest\<close> of the \<open>j\<close>-th service, called
  with the request \<open>r\<close>.
\<close>

datatype call = pre_call nat | handler_call nat string | post_call nat

record server =
  services :: "IService list"
  interceptors :: "IInterceptor list"

text \<open>The first loop: it stops at the first interceptor whose \<open>preProcess\<close> is false.\<close>

fun run_preProcess ::
    "(nat \<Rightarrow> int) \<Rightarrow> nat \<Rightarrow> IInterceptor list \<Rightarrow> string \<Rightarrow> world
       \<Rightarrow> bool \<times> string \<times> IInterceptor list \<times> world \<times> call list" where
  "run_preProcess clk k [] request w = (True, request, [], w, [])"
| "run_preProcess clk k (i # is) request w =
     (case preProcess clk i request w of (ok, request1, i1, w1) \<Rightarrow>
        if \<not> ok then (False, request1, i1 # is, w1, [pre_call k])
        else (case run_preProcess clk (Suc k) is request1 w1 of (ok2, request2, is2, w2, tr) \<Rightarrow>
                (ok2, request2, i1 # is2, w2, pre_call k # tr)))"

text \<open>The second loop: the services in order, until one gives a response that is not
  empty. An exception of a service leaves the loop and the pipeline.\<close>

fun dispatch ::
    "('d, 'x) double_ops_scheme \<Rightarrow> nat \<Rightarrow> IService list \<Rightarrow> string \<Rightarrow> filesystem
       \<Rightarrow> exn + (string \<times> filesystem \<times> call list)" where
  "dispatch D j [] request fs = Inr ([], fs, [])"
| "dispatch D j (s # ss) request fs =
     (case IService_processRequest D s request fs of
        Inl e \<Rightarrow> Inl e
      | Inr (response, fs1) \<Rightarrow>
          if response \<noteq> [] then Inr (response, fs1, [handler_call j request])
          else (case dispatch D (Suc j) ss request fs1 of
                  Inl e \<Rightarrow> Inl e
                | Inr (response2, fs2, tr) \<Rightarrow> Inr (response2, fs2, handler_call j request # tr)))"

text \<open>The third loop: every interceptor's \<open>postProcess\<close>, in the stored order.\<close>

fun run_postProcess ::
    "(nat \<Rightarrow> int) \<Rightarrow> nat \<Rightarrow> IInterceptor list \<Rightarrow> string \<Rightarrow> string \<Rightarrow> world
       \<Rightarrow> string \<times> IInterceptor list \<times> world \<times> call list" where
  "run_postProcess clk k [] request response w = (response, [], w, [])"
| "run_postProcess clk k (i # is) request response w =
     (case postProcess clk i request response w of (response1, i1, w1) \<Rightarrow>
        (case run_postProcess clk (Suc k) is request response1 w1 of (response2, is2, w2, tr) \<Rightarrow>
           (response2, i1 # is2, w2, post_call k # tr)))"

definition rejected_response :: string where
  "rejected_response = ''ERROR: Request rejected by interceptor''"

definition no_service_response :: string where
  "no_service_response = ''ERROR: No service available to handle request''"

text \<open>
  \<open>HFTServer::processRequest\<close>. \<open>SocketServer::processRequest\<close> has the same body after
  its \<open>std::sort\<close> of the interceptors.
\<close>

definition processRequest ::
    "('d, 'x) double_ops_scheme \<Rightarrow> (nat \<Rightarrow> int) \<Rightarrow> server \<Rightarrow> string \<Rightarrow> world
       \<Rightarrow> exn + (string \<times> server \<times> world \<times> call list)" where
  "processRequest D clk srv request w =
     (case run_preProcess clk 0 (interceptors srv) request w of
        (ok, processedRequest, is1, w1, tr1) \<Rightarrow>
          if \<not> ok then Inr (rejected_response, srv\<lparr>interceptors := is1\<rparr>, w1, tr1)
          else
            (case dispatch D 0 (services srv) processedRequest (fsys w1) of
               Inl e \<Rightarrow> Inl e
             | Inr (response, fs2, tr2) \<Rightarrow>
                 (let response1 = (if response = [] then no_service_response else response)
                  in case run_postProcess clk 0 is1 processedRequest response1 (w1\<lparr>fsys := fs2\<rparr>) of
                       (response2, is2, w3, tr3) \<Rightarrow>
                         Inr (response2, srv\<lparr>interceptors := is2\<rparr>, w3, tr1 @ tr2 @ tr3))))"


section \<open>Registration of interceptors\<close>

subsection \<open>\<open>std::sort\<close>\<close>

text \<open>
  Both servers order their interceptors with \<open>std::sort\<close>. build.sh compiles with \<open>g++\<close>,
  whose library (libstdc++, headers \<open>bits/stl_algo.h\<close> and \<open>bits/stl_heap.h\<close>) implements
  \<open>std::sort\<close> as an introsort: quicksort with the median of three as pivot on ranges of more
  than 16 elements, heap sort once the depth limit \<open>2 * floor (log2 n)\<close> is used up, and a
  final insertion sort over the whole range. The functions below follow the library's, under
  their names without the leading underscores. The vector is a list, an iterator is an index
  into it, and a function returns the vector it leaves. The loops of the library that have no
  bound check of their own (they rely on an element that stops them) return \<open>None\<close> where
  they would leave the vector.
\<close>

paragraph \<open>Partition\<close>

text \<open>\<open>std::iter_swap\<close>, and \<open>__move_median_to_first\<close>, which swaps the median of the
  elements at \<open>a\<close>, \<open>b\<close> and \<open>c\<close> to \<open>result\<close>.\<close>

definition iter_swap :: "'a list \<Rightarrow> nat \<Rightarrow> nat \<Rightarrow> 'a list" where
  "iter_swap xs i j = xs[i := xs ! j, j := xs ! i]"

definition move_median_to_first ::
    "('a \<Rightarrow> 'a \<Rightarrow> bool) \<Rightarrow> 'a list \<Rightarrow> nat \<Rightarrow> nat \<Rightarrow> nat \<Rightarrow> nat \<Rightarrow> 'a list" where
  "move_median_to_first cmp xs result a b c =
     (if cmp (xs ! a) (xs ! b) then
        (if cmp (xs ! b) (xs ! c) then iter_swap xs result b
         else if cmp (xs ! a) (xs ! c) then iter_swap xs result c
         else iter_swap xs result a)
      else if cmp (xs ! a) (xs ! c) then iter_swap xs result a
      else if cmp (xs ! b) (xs ! c) then iter_swap xs result c
      else iter_swap xs result b)"

text \<open>
  \<open>__unguarded_partition\<close>: \<open>scan_up\<close> is its loop \<open>while (comp(first, pivot)) ++first\<close>,
  \<open>scan_down\<close> its loop \<open>while (comp(pivot, last)) --last\<close>, entered after \<open>--last\<close>.
  \<open>__unguarded_partition_pivot\<close> takes the median of the second, the middle and the last
  element as pivot, at \<open>first\<close>.
\<close>

function scan_up :: "('a \<Rightarrow> 'a \<Rightarrow> bool) \<Rightarrow> 'a list \<Rightarrow> nat \<Rightarrow> nat \<Rightarrow> nat option" where
  "scan_up cmp xs first pivot =
     (if length xs \<le> first then None
      else if cmp (xs ! first) (xs ! pivot) then scan_up cmp xs (Suc first) pivot
      else Some first)"
  by pat_completeness auto
termination
  by (relation "measure (\<lambda>(cmp, xs, first, pivot). length xs - first)") auto

declare scan_up.simps [simp del]

fun scan_down :: "('a \<Rightarrow> 'a \<Rightarrow> bool) \<Rightarrow> 'a list \<Rightarrow> nat \<Rightarrow> nat \<Rightarrow> nat option" where
  "scan_down cmp xs 0 pivot = (if cmp (xs ! pivot) (xs ! 0) then None else Some 0)"
| "scan_down cmp xs (Suc l) pivot =
     (if cmp (xs ! pivot) (xs ! Suc l) then scan_down cmp xs l pivot else Some (Suc l))"

function unguarded_partition ::
    "('a \<Rightarrow> 'a \<Rightarrow> bool) \<Rightarrow> 'a list \<Rightarrow> nat \<Rightarrow> nat \<Rightarrow> nat \<Rightarrow> ('a list \<times> nat) option" where
  "unguarded_partition cmp xs first lst pivot =
     (case scan_up cmp xs first pivot of
        None \<Rightarrow> None
      | Some f \<Rightarrow>
          (case lst of
             0 \<Rightarrow> None
           | Suc l0 \<Rightarrow>
               (case scan_down cmp xs l0 pivot of
                  None \<Rightarrow> None
                | Some l \<Rightarrow>
                    if \<not> f < l then Some (xs, f)
                    else unguarded_partition cmp (iter_swap xs f l) (Suc f) l pivot)))"
  by pat_completeness auto
termination
proof -
  have le: "scan_down cmp xs l pivot = Some l' \<Longrightarrow> l' \<le> l"
    for cmp :: "'a \<Rightarrow> 'a \<Rightarrow> bool" and xs l pivot l'
    by (induction l) (auto split: if_splits)
  show ?thesis
    by (relation "measure (\<lambda>(cmp, xs, first, lst, pivot). lst)") (auto dest: le)
qed

declare unguarded_partition.simps [simp del]

definition unguarded_partition_pivot ::
    "('a \<Rightarrow> 'a \<Rightarrow> bool) \<Rightarrow> 'a list \<Rightarrow> nat \<Rightarrow> nat \<Rightarrow> ('a list \<times> nat) option" where
  "unguarded_partition_pivot cmp xs first lst =
     (let mid = first + (lst - first) div 2;
          xs1 = move_median_to_first cmp xs first (first + 1) mid (lst - 1)
      in unguarded_partition cmp xs1 (first + 1) lst first)"

paragraph \<open>Heap sort\<close>

text \<open>
  \<open>__push_heap\<close>, \<open>__adjust_heap\<close> (\<open>adjust_heap_loop\<close> is its \<open>while\<close> loop),
  \<open>__make_heap\<close> (\<open>make_heap_loop\<close> is its loop over \<open>parent\<close>), \<open>__pop_heap\<close>,
  \<open>__sort_heap\<close>, \<open>__heap_select\<close> and \<open>__partial_sort\<close>. Indices into the heap are
  relative to \<open>first\<close>. The library's indices are signed: \<open>(len - 2) / 2\<close> is \<open>-1\<close> for
  \<open>len = 0\<close>, which no \<open>secondChild\<close> equals, hence the test \<open>len \<noteq> 0\<close>.
\<close>

function push_heap ::
    "('a \<Rightarrow> 'a \<Rightarrow> bool) \<Rightarrow> 'a list \<Rightarrow> nat \<Rightarrow> nat \<Rightarrow> nat \<Rightarrow> 'a \<Rightarrow> 'a list" where
  "push_heap cmp xs first holeIndex topIndex val =
     (let parent = (holeIndex - 1) div 2
      in if holeIndex > topIndex \<and> cmp (xs ! (first + parent)) val
         then push_heap cmp (xs[first + holeIndex := xs ! (first + parent)]) first parent topIndex val
         else xs[first + holeIndex := val])"
  by pat_completeness auto
termination
  by (relation "measure (\<lambda>(cmp, xs, first, holeIndex, topIndex, val). holeIndex)") auto

declare push_heap.simps [simp del]

function adjust_heap_loop ::
    "('a \<Rightarrow> 'a \<Rightarrow> bool) \<Rightarrow> 'a list \<Rightarrow> nat \<Rightarrow> nat \<Rightarrow> nat \<Rightarrow> nat \<Rightarrow> 'a list \<times> nat \<times> nat" where
  "adjust_heap_loop cmp xs first holeIndex secondChild len =
     (if secondChild < (len - 1) div 2 then
        (let sc = 2 * (secondChild + 1);
             sc' = (if cmp (xs ! (first + sc)) (xs ! (first + (sc - 1))) then sc - 1 else sc)
         in adjust_heap_loop cmp (xs[first + holeIndex := xs ! (first + sc')]) first sc' sc' len)
      else (xs, holeIndex, secondChild))"
  by pat_completeness auto
termination
  by (relation "measure (\<lambda>(cmp, xs, first, holeIndex, secondChild, len). len - secondChild)")
     (auto simp: Let_def)

declare adjust_heap_loop.simps [simp del]

definition adjust_heap ::
    "('a \<Rightarrow> 'a \<Rightarrow> bool) \<Rightarrow> 'a list \<Rightarrow> nat \<Rightarrow> nat \<Rightarrow> nat \<Rightarrow> 'a \<Rightarrow> 'a list" where
  "adjust_heap cmp xs first holeIndex len val =
     (case adjust_heap_loop cmp xs first holeIndex holeIndex len of
        (xs1, holeIndex1, secondChild1) \<Rightarrow>
          if even len \<and> len \<noteq> 0 \<and> secondChild1 = (len - 2) div 2 then
            (let sc = 2 * (secondChild1 + 1)
             in push_heap cmp (xs1[first + holeIndex1 := xs1 ! (first + (sc - 1))]) first
                  (sc - 1) holeIndex val)
          else push_heap cmp xs1 first holeIndex1 holeIndex val)"

fun make_heap_loop ::
    "('a \<Rightarrow> 'a \<Rightarrow> bool) \<Rightarrow> 'a list \<Rightarrow> nat \<Rightarrow> nat \<Rightarrow> nat \<Rightarrow> 'a list" where
  "make_heap_loop cmp xs first len 0 = adjust_heap cmp xs first 0 len (xs ! first)"
| "make_heap_loop cmp xs first len (Suc p) =
     make_heap_loop cmp (adjust_heap cmp xs first (Suc p) len (xs ! (first + Suc p))) first len p"

definition make_heap :: "('a \<Rightarrow> 'a \<Rightarrow> bool) \<Rightarrow> 'a list \<Rightarrow> nat \<Rightarrow> nat \<Rightarrow> 'a list" where
  "make_heap cmp xs first lst =
     (if lst - first < 2 then xs
      else make_heap_loop cmp xs first (lst - first) ((lst - first - 2) div 2))"

definition pop_heap ::
    "('a \<Rightarrow> 'a \<Rightarrow> bool) \<Rightarrow> 'a list \<Rightarrow> nat \<Rightarrow> nat \<Rightarrow> nat \<Rightarrow> 'a list" where
  "pop_heap cmp xs first lst result =
     adjust_heap cmp (xs[result := xs ! first]) first 0 (lst - first) (xs ! result)"

function sort_heap :: "('a \<Rightarrow> 'a \<Rightarrow> bool) \<Rightarrow> 'a list \<Rightarrow> nat \<Rightarrow> nat \<Rightarrow> 'a list" where
  "sort_heap cmp xs first lst =
     (if lst - first > 1
      then sort_heap cmp (pop_heap cmp xs first (lst - 1) (lst - 1)) first (lst - 1)
      else xs)"
  by pat_completeness auto
termination
  by (relation "measure (\<lambda>(cmp, xs, first, lst). lst - first)") auto

declare sort_heap.simps [simp del]

function heap_select_loop ::
    "('a \<Rightarrow> 'a \<Rightarrow> bool) \<Rightarrow> 'a list \<Rightarrow> nat \<Rightarrow> nat \<Rightarrow> nat \<Rightarrow> nat \<Rightarrow> 'a list" where
  "heap_select_loop cmp xs first middle i lst =
     (if i < lst
      then heap_select_loop cmp
             (if cmp (xs ! i) (xs ! first) then pop_heap cmp xs first middle i else xs)
             first middle (Suc i) lst
      else xs)"
  by pat_completeness auto
termination
  by (relation "measure (\<lambda>(cmp, xs, first, middle, i, lst). lst - i)") auto

declare heap_select_loop.simps [simp del]

definition heap_select ::
    "('a \<Rightarrow> 'a \<Rightarrow> bool) \<Rightarrow> 'a list \<Rightarrow> nat \<Rightarrow> nat \<Rightarrow> nat \<Rightarrow> 'a list" where
  "heap_select cmp xs first middle lst =
     heap_select_loop cmp (make_heap cmp xs first middle) first middle middle lst"

definition partial_sort ::
    "('a \<Rightarrow> 'a \<Rightarrow> bool) \<Rightarrow> 'a list \<Rightarrow> nat \<Rightarrow> nat \<Rightarrow> nat \<Rightarrow> 'a list" where
  "partial_sort cmp xs first middle lst =
     sort_heap cmp (heap_select cmp xs first middle lst) first middle"

paragraph \<open>The introsort loop\<close>

text \<open>\<open>__introsort_loop\<close>: each turn of its \<open>while\<close> loop is one call here; the turn
  sorts the upper part by a recursive call and goes on with the lower part.\<close>

fun introsort_loop ::
    "('a \<Rightarrow> 'a \<Rightarrow> bool) \<Rightarrow> 'a list \<Rightarrow> nat \<Rightarrow> nat \<Rightarrow> nat \<Rightarrow> 'a list option" where
  "introsort_loop cmp xs first lst 0 =
     (if lst - first > 16 then Some (partial_sort cmp xs first lst lst) else Some xs)"
| "introsort_loop cmp xs first lst (Suc depth_limit) =
     (if lst - first > 16 then
        (case unguarded_partition_pivot cmp xs first lst of
           None \<Rightarrow> None
         | Some (xs1, cut_pos) \<Rightarrow>
             (case introsort_loop cmp xs1 cut_pos lst depth_limit of
                None \<Rightarrow> None
              | Some xs2 \<Rightarrow> introsort_loop cmp xs2 first cut_pos depth_limit))
      else Some xs)"

paragraph \<open>Insertion sort\<close>

text \<open>
  \<open>__unguarded_linear_insert\<close> moves the element at \<open>last\<close> down past every element greater
  than it, with no test for the start of the vector. \<open>__insertion_sort\<close> uses it for an
  element that is not less than the first one, and moves an element that is less to the front
  (\<open>std::move_backward\<close>, \<open>move_backward_insert\<close> here). \<open>__final_insertion_sort\<close> runs
  the guarded insertion sort on the first 16 elements and the unguarded one on the rest. Both
  sorts loop \<open>for (i = ...; i != last; ++i)\<close>: started behind \<open>last\<close>, the loop would
  leave the vector.
\<close>

fun unguarded_linear_insert_loop ::
    "('a \<Rightarrow> 'a \<Rightarrow> bool) \<Rightarrow> 'a list \<Rightarrow> 'a \<Rightarrow> nat \<Rightarrow> 'a list option" where
  "unguarded_linear_insert_loop cmp xs val 0 = None"
| "unguarded_linear_insert_loop cmp xs val (Suc nxt) =
     (if cmp val (xs ! nxt)
      then unguarded_linear_insert_loop cmp (xs[Suc nxt := xs ! nxt]) val nxt
      else Some (xs[Suc nxt := val]))"

definition unguarded_linear_insert ::
    "('a \<Rightarrow> 'a \<Rightarrow> bool) \<Rightarrow> 'a list \<Rightarrow> nat \<Rightarrow> 'a list option" where
  "unguarded_linear_insert cmp xs lst = unguarded_linear_insert_loop cmp xs (xs ! lst) lst"

definition move_backward_insert :: "'a list \<Rightarrow> nat \<Rightarrow> nat \<Rightarrow> 'a list" where
  "move_backward_insert xs first i =
     take first xs @ xs ! i # take (i - first) (drop first xs) @ drop (Suc i) xs"

function insertion_sort_loop ::
    "('a \<Rightarrow> 'a \<Rightarrow> bool) \<Rightarrow> 'a list \<Rightarrow> nat \<Rightarrow> nat \<Rightarrow> nat \<Rightarrow> 'a list option" where
  "insertion_sort_loop cmp xs first i lst =
     (if i = lst then Some xs
      else if lst < i then None
      else if cmp (xs ! i) (xs ! first)
           then insertion_sort_loop cmp (move_backward_insert xs first i) first (Suc i) lst
           else (case unguarded_linear_insert cmp xs i of
                   None \<Rightarrow> None
                 | Some xs1 \<Rightarrow> insertion_sort_loop cmp xs1 first (Suc i) lst))"
  by pat_completeness auto
termination
  by (relation "measure (\<lambda>(cmp, xs, first, i, lst). lst - i)") auto

declare insertion_sort_loop.simps [simp del]

definition insertion_sort ::
    "('a \<Rightarrow> 'a \<Rightarrow> bool) \<Rightarrow> 'a list \<Rightarrow> nat \<Rightarrow> nat \<Rightarrow> 'a list option" where
  "insertion_sort cmp xs first lst =
     (if first = lst then Some xs else insertion_sort_loop cmp xs first (first + 1) lst)"

function unguarded_insertion_sort ::
    "('a \<Rightarrow> 'a \<Rightarrow> bool) \<Rightarrow> 'a list \<Rightarrow> nat \<Rightarrow> nat \<Rightarrow> 'a list option" where
  "unguarded_insertion_sort cmp xs i lst =
     (if i = lst then Some xs
      else if lst < i then None
      else (case unguarded_linear_insert cmp xs i of
              None \<Rightarrow> None
            | Some xs1 \<Rightarrow> unguarded_insertion_sort cmp xs1 (Suc i) lst))"
  by pat_completeness auto
termination
  by (relation "measure (\<lambda>(cmp, xs, i, lst). lst - i)") auto

declare unguarded_insertion_sort.simps [simp del]

definition final_insertion_sort ::
    "('a \<Rightarrow> 'a \<Rightarrow> bool) \<Rightarrow> 'a list \<Rightarrow> nat \<Rightarrow> nat \<Rightarrow> 'a list option" where
  "final_insertion_sort cmp xs first lst =
     (if lst - first > 16 then
        (case insertion_sort cmp xs first (first + 16) of
           None \<Rightarrow> None
         | Some xs1 \<Rightarrow> unguarded_insertion_sort cmp xs1 (first + 16) lst)
      else insertion_sort cmp xs first lst)"

paragraph \<open>\<open>std::sort\<close>\<close>

text \<open>\<open>std::__lg\<close> is the floor of the binary logarithm; \<open>std::sort\<close> on the whole vector.\<close>

fun lg :: "nat \<Rightarrow> nat" where
  "lg n = (if n < 2 then 0 else Suc (lg (n div 2)))"

declare lg.simps [simp del]

definition std_sort :: "('a \<Rightarrow> 'a \<Rightarrow> bool) \<Rightarrow> 'a list \<Rightarrow> 'a list option" where
  "std_sort cmp xs =
     (if xs = [] then Some xs
      else (case introsort_loop cmp xs 0 (length xs) (lg (length xs) * 2) of
              None \<Rightarrow> None
            | Some xs1 \<Rightarrow> final_insertion_sort cmp xs1 0 (length xs)))"

subsection \<open>The two servers\<close>

definition by_priority :: "IInterceptor \<Rightarrow> IInterceptor \<Rightarrow> bool" where
  "by_priority a b \<longleftrightarrow> getPriority a < getPriority b"

text \<open>\<open>HFTServer::addInterceptor\<close>: \<open>push_back\<close>, then \<open>std::sort\<close> with the comparison
  of priorities.\<close>

definition HFTServer_addInterceptor :: "server \<Rightarrow> IInterceptor \<Rightarrow> server option" where
  "HFTServer_addInterceptor srv i =
     (case std_sort by_priority (interceptors srv @ [i]) of
        None \<Rightarrow> None
      | Some is' \<Rightarrow> Some (srv\<lparr>interceptors := is'\<rparr>))"

text \<open>\<open>SocketServer::addInterceptor\<close> only appends; \<open>SocketServer::processRequest\<close>
  sorts the stored sequence and then runs the pipeline on it.\<close>

definition SocketServer_addInterceptor :: "server \<Rightarrow> IInterceptor \<Rightarrow> server" where
  "SocketServer_addInterceptor srv i = srv\<lparr>interceptors := interceptors srv @ [i]\<rparr>"

definition SocketServer_processRequest ::
    "('d, 'x) double_ops_scheme \<Rightarrow> (nat \<Rightarrow> int) \<Rightarrow> server \<Rightarrow> string \<Rightarrow> world
       \<Rightarrow> (exn + (string \<times> server \<times> world \<times> call list)) option" where
  "SocketServer_processRequest D clk srv request w =
     (case std_sort by_priority (interceptors srv) of
        None \<Rightarrow> None
      | Some is' \<Rightarrow> Some (processRequest D clk (srv\<lparr>interceptors := is'\<rparr>) request w))"

section \<open>Notions used in the statements\<close>

text \<open>The response of one service call, without the file system it leaves.\<close>

definition response_of ::
    "('d, 'x) double_ops_scheme \<Rightarrow> IService \<Rightarrow> string \<Rightarrow> filesystem \<Rightarrow> exn + string" where
  "response_of D s request fs = map_sum id fst (IService_processRequest D s request fs)"

text \<open>
  A token occurrence: at position \<open>p\<close> of the request stands \<open>TOKEN:\<close>, followed by the
  token \<open>t\<close>, the longest run of characters that are not white space, which is not
  empty.
\<close>

definition has_token_at :: "string \<Rightarrow> nat \<Rightarrow> bool" where
  "has_token_at request p \<longleftrightarrow>
     starts_with ''TOKEN:'' (drop p request)
     \<and> takeWhile (\<lambda>x. \<not> is_space x) (drop (p + 6) request) \<noteq> []"

definition token_at :: "string \<Rightarrow> nat \<Rightarrow> string \<Rightarrow> bool" where
  "token_at request p t \<longleftrightarrow>
     has_token_at request p \<and> t = takeWhile (\<lambda>x. \<not> is_space x) (drop (p + 6) request)"

text \<open>The results of \<open>n\<close> calls of \<open>preProcess\<close> in a row on one interceptor.\<close>

fun preProcess_calls ::
    "(nat \<Rightarrow> int) \<Rightarrow> nat \<Rightarrow> IInterceptor \<Rightarrow> string \<Rightarrow> world \<Rightarrow> bool list" where
  "preProcess_calls clk 0 i request w = []"
| "preProcess_calls clk (Suc n) i request w =
     (case preProcess clk i request w of (ok, request', i', w') \<Rightarrow>
        ok # preProcess_calls clk n i' request' w')"

text \<open>Calls of \<open>HFTServer::addInterceptor\<close> one after another, as in \<open>main\<close>.\<close>

fun HFTServer_addInterceptors :: "server \<Rightarrow> IInterceptor list \<Rightarrow> server option" where
  "HFTServer_addInterceptors srv [] = Some srv"
| "HFTServer_addInterceptors srv (i # js) =
     (case HFTServer_addInterceptor srv i of
        None \<Rightarrow> None
      | Some srv' \<Rightarrow> HFTServer_addInterceptors srv' js)"

section \<open>Notions used in the proofs\<close>

text \<open>
  Heaps, for the proof of the heap sort: \<open>desc p h\<close>, the node \<open>h\<close> is \<open>p\<close> or below it;
  \<open>heap_from f xs first len p\<close>, in the heap of \<open>len\<close> elements at \<open>first\<close> no node whose
  parent is \<open>p\<close> or a later node has a greater key than its parent; \<open>heap_hole\<close>, the same
  but for the node \<open>h\<close>, whose element has been moved away, and the children of \<open>h\<close> are not
  greater than its parent.
\<close>

fun desc :: "nat \<Rightarrow> nat \<Rightarrow> bool" where
  "desc p h = (if h \<le> p then h = p else desc p ((h - 1) div 2))"

declare desc.simps [simp del]

definition heap_from :: "('a \<Rightarrow> 'k::linorder) \<Rightarrow> 'a list \<Rightarrow> nat \<Rightarrow> nat \<Rightarrow> nat \<Rightarrow> bool" where
  "heap_from f xs first len p \<longleftrightarrow>
     (\<forall>i. 0 < i \<and> i < len \<and> p \<le> (i - 1) div 2
        \<longrightarrow> f (xs ! (first + i)) \<le> f (xs ! (first + (i - 1) div 2)))"

definition heap_hole ::
    "('a \<Rightarrow> 'k::linorder) \<Rightarrow> 'a list \<Rightarrow> nat \<Rightarrow> nat \<Rightarrow> nat \<Rightarrow> nat \<Rightarrow> bool" where
  "heap_hole f xs first len p h \<longleftrightarrow>
     (\<forall>i. 0 < i \<and> i < len \<and> p \<le> (i - 1) div 2 \<and> i \<noteq> h \<and> (i - 1) div 2 \<noteq> h
        \<longrightarrow> f (xs ! (first + i)) \<le> f (xs ! (first + (i - 1) div 2)))
     \<and> (p < h \<longrightarrow> (\<forall>i. 0 < i \<and> i < len \<and> (i - 1) div 2 = h
        \<longrightarrow> f (xs ! (first + i)) \<le> f (xs ! (first + (h - 1) div 2))))"

section \<open>Example configurations\<close>

text \<open>
  The server of the HFT entry point: the three services, and the authentication
  interceptor with the token \<open>secret123\<close>.
\<close>

definition hft_server :: server where
  "hft_server = \<lparr>services = [EchoService, CalculatorService, FileService],
                  interceptors = [AuthenticationInterceptor ''secret123'']\<rparr>"

text \<open>A world with no file, in which every file can be created, and a clock that
  advances by one second at every reading.\<close>

definition world0 :: world where
  "world0 = \<lparr>clock_reads = 0, fsys = \<lparr>files = (\<lambda>_. None), creatable = (\<lambda>_. True)\<rparr>\<rparr>"

definition clock0 :: "nat \<Rightarrow> int" where
  "clock0 n = 1000000000 * int n"

text \<open>
  A stand-in for the library's numbers, to run examples: the numbers are the naturals,
  a literal is a run of decimal digits, and a number prints as its digits.
\<close>

definition is_digit :: "char \<Rightarrow> bool" where
  "is_digit c \<longleftrightarrow> c \<in> set ''0123456789''"

definition digit_value :: "char \<Rightarrow> nat" where
  "digit_value c = of_char c - 48"

fun digits_value :: "nat \<Rightarrow> string \<Rightarrow> nat" where
  "digits_value acc [] = acc"
| "digits_value acc (c # cs) = digits_value (10 * acc + digit_value c) cs"

fun show_nat :: "nat \<Rightarrow> string" where
  "show_nat n = (if n < 10 then [char_of (48 + n)] else show_nat (n div 10) @ [char_of (48 + n mod 10)])"

definition example_ops :: "nat double_ops" where
  "example_ops =
     \<lparr>get_double = (\<lambda>s. case takeWhile is_digit s of
                            [] \<Rightarrow> NoNumber
                          | d # ds \<Rightarrow> Number (digits_value 0 (d # ds)) (length (d # ds))),
      dzero = 0, dneg = (\<lambda>x. x), dis_zero = (\<lambda>x. x = 0), to_string = show_nat\<rparr>"

section \<open>Properties of the hand-off queue\<close>

lemma enqueue_never_fails: "fst (enqueue item q) = True"
  by (simp add: enqueue_def get_node_def Let_def)

lemma enqueue_keeps_capacity: "length (pool (snd (enqueue item q))) = length (pool q)"
  by (simp add: enqueue_def get_node_def Let_def)

text \<open>
  C4. The claim: a queue already holding as many items as its capacity refuses a further
  \<open>enqueue\<close> (it returns false) and keeps its contents. The code at a queue of capacity 3
  into which 1, 2 and 3 were enqueued, of which 2 and 3 are still to be dequeued: the
  fourth \<open>enqueue\<close> returns true, takes the node at the head of the list again and cuts
  the list there, so that the items 2 and 3 (and 4) are never dequeued.
\<close>

theorem enqueue_on_full_queue:
  "LockFreeQueue_new 0 3 = Some queue3
   \<and> dequeue_n 3 (enqueue_all [1, 2, 3] queue3) = [Some 2, Some 3, None]
   \<and> fst (enqueue 4 (enqueue_all [1, 2, 3] queue3)) = True
   \<and> dequeue_n 3 (snd (enqueue 4 (enqueue_all [1, 2, 3] queue3))) = [None, None, None]"
  by code_simp

lemma dequeue_steps: "dequeue q = dequeue_write (dequeue_read q) q"
  by (simp add: dequeue_def dequeue_read_def dequeue_write_def Let_def)

text \<open>
  C7. The claim: no two dequeues return the same work item, and every enqueued item is
  delivered exactly once. The code at a new queue after one \<open>enqueue\<close>: the first
  \<open>get_node\<close> returns the node that \<open>head\<close> and \<open>tail\<close> point to, its \<open>next\<close> becomes
  the node itself, and two dequeues, one after the other, both return the item. And at
  a queue that holds the one item 2 (after the enqueues of 1 and 2), where two dequeues
  in sequence return 2 and nothing: two dequeues whose loads both come before the first
  store both return 2.
\<close>

theorem dequeue_same_item_twice:
  "LockFreeQueue_new 0 3 = Some queue3
   \<and> fst (enqueue 7 queue3) = True
   \<and> dequeue_n 2 (snd (enqueue 7 queue3)) = [Some 7, Some 7]
   \<and> dequeue_n 2 (enqueue_all [1, 2] queue3) = [Some 2, None]
   \<and> fst (dequeue_race (enqueue_all [1, 2] queue3)) = Some 2
   \<and> fst (snd (dequeue_race (enqueue_all [1, 2] queue3))) = Some 2"
  by code_simp

section \<open>The loops of the pipeline\<close>

lemma upt_add_Suc: "[k..<k + Suc n] = k # [Suc k..<Suc k + n]"
  using upt_conv_Cons [of k "k + Suc n"] by simp

lemma preProcess_request: "preProcess clk i request w = (ok, r, i', w') \<Longrightarrow> r = request"
  by (cases i)
     (auto simp: steady_clock_now_def LoggingInterceptor_preProcess_def
        AuthenticationInterceptor_preProcess_def RateLimitingInterceptor_preProcess_def
        ValidationInterceptor_preProcess_def Let_def split: option.splits if_splits)

lemma run_preProcess_request:
  "run_preProcess clk k is request w = (ok, r, is', w', tr) \<Longrightarrow> r = request"
proof (induction "is" arbitrary: k w ok r is' w' tr)
  case Nil
  then show ?case by simp
next
  case (Cons i "is")
  then show ?case
    by (auto split: prod.splits if_splits dest: preProcess_request)
qed

lemma run_preProcess_accept_trace:
  "run_preProcess clk k is request w = (True, r, is', w', tr)
     \<Longrightarrow> tr = map pre_call [k..<k + length is]"
proof (induction "is" arbitrary: k w request r is' w' tr)
  case Nil
  then show ?case by simp
next
  case (Cons i "is")
  obtain r1 i1 w1 where p: "preProcess clk i request w = (True, r1, i1, w1)"
    using Cons.prems by (auto split: prod.splits if_splits)
  obtain r2 is2 w2 tr2 where q: "run_preProcess clk (Suc k) is r1 w1 = (True, r2, is2, w2, tr2)"
    and e: "tr = pre_call k # tr2"
    using Cons.prems p by (auto split: prod.splits if_splits)
  have "tr2 = map pre_call [Suc k..<Suc k + length is]" by (rule Cons.IH [OF q])
  then show ?case using e upt_add_Suc [of k "length is"] by simp
qed

lemma run_preProcess_reject_trace:
  "run_preProcess clk k is request w = (False, r, is', w', tr)
     \<Longrightarrow> \<exists>n < length is. tr = map pre_call [k..<k + Suc n]"
proof (induction "is" arbitrary: k w request r is' w' tr)
  case Nil
  then show ?case by simp
next
  case (Cons i "is")
  obtain ok1 r1 i1 w1 where p: "preProcess clk i request w = (ok1, r1, i1, w1)"
    by (metis prod_cases4)
  show ?case
  proof (cases ok1)
    case False
    then have "tr = [pre_call k]" using Cons.prems p by simp
    then have "tr = map pre_call [k..<k + Suc 0]" by simp
    then show ?thesis by blast
  next
    case True
    obtain ok2 r2 is2 w2 tr2
      where q: "run_preProcess clk (Suc k) is r1 w1 = (ok2, r2, is2, w2, tr2)"
      by (metis prod_cases5)
    from Cons.prems p True q have e: "ok2 = False" "tr = pre_call k # tr2" by simp_all
    from Cons.IH [of "Suc k" r1 w1 r2 is2 w2 tr2] q e(1)
    obtain n where n: "n < length is" "tr2 = map pre_call [Suc k..<Suc k + Suc n]" by auto
    have "tr = map pre_call [k..<k + Suc (Suc n)]"
      using e(2) n(2) upt_add_Suc [of k "Suc n"] by simp
    moreover have "Suc n < length (i # is)" using n(1) by simp
    ultimately show ?thesis by blast
  qed
qed

lemma postProcess_nonempty:
  "postProcess clk i request response w = (r, i', w') \<Longrightarrow> response \<noteq> [] \<Longrightarrow> r = response"
  by (cases i) (auto simp: steady_clock_now_def)

lemma run_postProcess_nonempty:
  "run_postProcess clk k is request response w = (r, is', w', tr) \<Longrightarrow> response \<noteq> []
     \<Longrightarrow> r = response"
proof (induction "is" arbitrary: k w response r is' w' tr)
  case Nil
  then show ?case by simp
next
  case (Cons i "is")
  obtain r1 i1 w1 where p: "postProcess clk i request response w = (r1, i1, w1)"
    by (metis prod_cases3)
  have r1: "r1 = response" using postProcess_nonempty [OF p Cons.prems(2)] .
  obtain is2 tr2 where q: "run_postProcess clk (Suc k) is request r1 w1 = (r, is2, w', tr2)"
    using Cons.prems(1) p by (auto split: prod.splits)
  show ?case using Cons.IH [OF q] r1 Cons.prems(2) by simp
qed

lemma run_postProcess_trace:
  "run_postProcess clk k is request response w = (r, is', w', tr)
     \<Longrightarrow> tr = map post_call [k..<k + length is]"
proof (induction "is" arbitrary: k w response r is' w' tr)
  case Nil
  then show ?case by simp
next
  case (Cons i "is")
  obtain r1 i1 w1 where p: "postProcess clk i request response w = (r1, i1, w1)"
    by (metis prod_cases3)
  obtain is2 tr2 where q: "run_postProcess clk (Suc k) is request r1 w1 = (r, is2, w', tr2)"
    and e: "tr = post_call k # tr2"
    using Cons.prems p by (auto split: prod.splits)
  have "tr2 = map post_call [Suc k..<Suc k + length is]" by (rule Cons.IH [OF q])
  then show ?case using e upt_add_Suc [of k "length is"] by simp
qed

lemma preProcess_length:
  "run_preProcess clk k is request w = (ok, r, is', w', tr) \<Longrightarrow> length is' = length is"
proof (induction "is" arbitrary: k w request ok r is' w' tr)
  case Nil
  then show ?case by simp
next
  case (Cons i "is")
  then show ?case
    by (auto split: prod.splits if_splits)
qed

lemma dispatch_trace:
  "dispatch D j ss request fs = Inr (response, fs', tr)
     \<Longrightarrow> \<exists>n \<le> length ss. tr = map (\<lambda>i. handler_call i request) [j..<j + n]"
proof (induction ss arbitrary: j fs response fs' tr)
  case Nil
  then show ?case by simp
next
  case (Cons s ss)
  obtain r1 fs1 where p: "IService_processRequest D s request fs = Inr (r1, fs1)"
    using Cons.prems by (auto split: sum.splits)
  show ?case
  proof (cases "r1 = []")
    case False
    then have "tr = map (\<lambda>i. handler_call i request) [j..<j + Suc 0]"
      using Cons.prems p by simp
    moreover have "Suc 0 \<le> length (s # ss)" by simp
    ultimately show ?thesis by blast
  next
    case True
    then obtain r2 fs2 tr2 where q: "dispatch D (Suc j) ss request fs1 = Inr (r2, fs2, tr2)"
      and e: "tr = handler_call j request # tr2"
      using Cons.prems p by (auto split: sum.splits)
    from Cons.IH [OF q] obtain n where n: "n \<le> length ss"
      "tr2 = map (\<lambda>i. handler_call i request) [Suc j..<Suc j + n]" by auto
    have "tr = map (\<lambda>i. handler_call i request) [j..<j + Suc n]"
      using e n(2) upt_add_Suc [of j n] by simp
    moreover have "Suc n \<le> length (s # ss)" using n(1) by simp
    ultimately show ?thesis by blast
  qed
qed

lemma processRequest_rejected:
  assumes "run_preProcess clk 0 (interceptors srv) request w = (False, pr, is1, w1, tr1)"
  shows "\<exists>n < length (interceptors srv).
           processRequest D clk srv request w
             = Inr (''ERROR: Request rejected by interceptor'', srv\<lparr>interceptors := is1\<rparr>, w1,
                    map pre_call [0..<Suc n])"
proof -
  from run_preProcess_reject_trace [OF assms]
  obtain n where n: "n < length (interceptors srv)" "tr1 = map pre_call [0..<0 + Suc n]"
    by blast
  have "processRequest D clk srv request w
          = Inr (''ERROR: Request rejected by interceptor'', srv\<lparr>interceptors := is1\<rparr>, w1, tr1)"
    using assms by (simp add: processRequest_def rejected_response_def)
  then show ?thesis using n by auto
qed

section \<open>Rejection by an interceptor\<close>

text \<open>
  Every rejected pre-pass has a first rejecting interceptor: the interceptors before it
  accept, each called in the world its predecessor left.
\<close>

lemma rejection_has_first_rejecting:
  "run_preProcess clk k is request w = (False, r, is1, w1, tr)
     \<Longrightarrow> \<exists>n ws is'. n < length is \<and> ws 0 = w
           \<and> (\<forall>m<n. preProcess clk (is ! m) request (ws m) = (True, request, is' m, ws (Suc m)))
           \<and> preProcess clk (is ! n) request (ws n) = (False, request, is' n, ws (Suc n))"
proof (induction "is" arbitrary: k w r is1 w1 tr)
  case Nil
  then show ?case by simp
next
  case (Cons i "is")
  obtain ok r1 i1 w2 where p: "preProcess clk i request w = (ok, r1, i1, w2)"
    by (metis prod_cases4)
  have r1: "r1 = request" by (rule preProcess_request [OF p])
  show ?case
  proof (cases ok)
    case False
    let ?ws = "\<lambda>m::nat. if m = 0 then w else w2"
    have "0 < length (i # is) \<and> ?ws 0 = w
           \<and> (\<forall>m<0. preProcess clk ((i # is) ! m) request (?ws m)
                       = (True, request, (\<lambda>_. i1) m, ?ws (Suc m)))
           \<and> preProcess clk ((i # is) ! 0) request (?ws 0)
               = (False, request, (\<lambda>_. i1) 0, ?ws (Suc 0))"
      using p r1 False by simp
    then show ?thesis
      by (intro exI [of _ 0] exI [of _ ?ws] exI [of _ "\<lambda>_. i1"])
  next
    case True
    obtain ok2 r2 is2 w3 tr2
      where q: "run_preProcess clk (Suc k) is request w2 = (ok2, r2, is2, w3, tr2)"
      by (metis prod_cases5)
    have "ok2 = False" using Cons.prems p r1 True q by simp
    then have "run_preProcess clk (Suc k) is request w2 = (False, r2, is2, w3, tr2)"
      using q by simp
    from Cons.IH [OF this] obtain n ws is'
      where n: "n < length is" "ws 0 = w2"
        "\<forall>m<n. preProcess clk (is ! m) request (ws m) = (True, request, is' m, ws (Suc m))"
        "preProcess clk (is ! n) request (ws n) = (False, request, is' n, ws (Suc n))"
      by blast
    let ?ws = "\<lambda>m. case m of 0 \<Rightarrow> w | Suc m' \<Rightarrow> ws m'"
    let ?is' = "\<lambda>m. case m of 0 \<Rightarrow> i1 | Suc m' \<Rightarrow> is' m'"
    have a: "Suc n < length (i # is)" using n(1) by simp
    have b: "?ws 0 = w" by simp
    have c: "\<forall>m<Suc n. preProcess clk ((i # is) ! m) request (?ws m)
                         = (True, request, ?is' m, ?ws (Suc m))"
    proof (intro allI impI)
      fix m assume m: "m < Suc n"
      show "preProcess clk ((i # is) ! m) request (?ws m) = (True, request, ?is' m, ?ws (Suc m))"
      proof (cases m)
        case 0
        then show ?thesis using p r1 True n(2) by simp
      next
        case (Suc m')
        then have "m' < n" using m by simp
        then show ?thesis using n(3) Suc by simp
      qed
    qed
    have d: "preProcess clk ((i # is) ! Suc n) request (?ws (Suc n))
               = (False, request, ?is' (Suc n), ?ws (Suc (Suc n)))"
      using n(4) by simp
    have "Suc n < length (i # is) \<and> ?ws 0 = w
           \<and> (\<forall>m<Suc n. preProcess clk ((i # is) ! m) request (?ws m)
                         = (True, request, ?is' m, ?ws (Suc m)))
           \<and> preProcess clk ((i # is) ! Suc n) request (?ws (Suc n))
               = (False, request, ?is' (Suc n), ?ws (Suc (Suc n)))"
      using a b c d by blast
    then show ?thesis
      by (intro exI [of _ "Suc n"] exI [of _ ?ws] exI [of _ ?is'])
  qed
qed

lemma run_preProcess_first_rejecting:
  "n < length is
     \<Longrightarrow> \<forall>m<n. preProcess clk (is ! m) request (ws m) = (True, request, is' m, ws (Suc m))
     \<Longrightarrow> preProcess clk (is ! n) request (ws n) = (False, request, is' n, ws (Suc n))
     \<Longrightarrow> run_preProcess clk k is request (ws 0)
           = (False, request, map is' [0..<Suc n] @ drop (Suc n) is, ws (Suc n),
              map pre_call [k..<k + Suc n])"
proof (induction "is" arbitrary: n ws is' k)
  case Nil
  then show ?case by simp
next
  case (Cons i "is")
  show ?case
  proof (cases n)
    case 0
    then have "preProcess clk i request (ws 0) = (False, request, is' 0, ws (Suc 0))"
      using Cons.prems(3) by simp
    then show ?thesis using 0 by simp
  next
    case (Suc n')
    have first: "preProcess clk i request (ws 0) = (True, request, is' 0, ws (Suc 0))"
      using Cons.prems(2) [rule_format, of 0] Suc by simp
    have a: "n' < length is" using Cons.prems(1) Suc by simp
    have b: "\<forall>m<n'. preProcess clk (is ! m) request ((\<lambda>m. ws (Suc m)) m)
                      = (True, request, (\<lambda>m. is' (Suc m)) m, (\<lambda>m. ws (Suc m)) (Suc m))"
    proof (intro allI impI)
      fix m assume "m < n'"
      then have "Suc m < n" using Suc by simp
      from Cons.prems(2) [rule_format, OF this]
      show "preProcess clk (is ! m) request ((\<lambda>m. ws (Suc m)) m)
                      = (True, request, (\<lambda>m. is' (Suc m)) m, (\<lambda>m. ws (Suc m)) (Suc m))"
        by simp
    qed
    have c: "preProcess clk (is ! n') request ((\<lambda>m. ws (Suc m)) n')
               = (False, request, (\<lambda>m. is' (Suc m)) n', (\<lambda>m. ws (Suc m)) (Suc n'))"
      using Cons.prems(3) Suc by simp
    have ih: "run_preProcess clk (Suc k) is request (ws (Suc 0))
           = (False, request, map (\<lambda>m. is' (Suc m)) [0..<Suc n'] @ drop (Suc n') is,
              ws (Suc (Suc n')), map pre_call [Suc k..<Suc k + Suc n'])"
      using Cons.IH [OF a b c, of "Suc k"] by simp
    have m: "map is' [0..<Suc (Suc n')] = is' 0 # map (\<lambda>m. is' (Suc m)) [0..<Suc n']"
      by (rule map_upt_Suc)
    have t: "map pre_call [k..<k + Suc (Suc n')] = pre_call k # map pre_call [Suc k..<Suc k + Suc n']"
      using upt_add_Suc [of k "Suc n'"] by simp
    show ?thesis
      unfolding Suc m t using first ih by simp
  qed
qed

text \<open>
  C1 (amended). When the \<open>preProcess\<close> of the interceptors before the \<open>n\<close>-th returns true
  and that of the \<open>n\<close>-th returns false, the pipeline returns the fixed rejection
  response at once: the calls of the execution are the \<open>preProcess\<close> calls of the
  interceptors \<open>0, \<dots>, n\<close>, in the stored order, and nothing else. The interceptors
  after the \<open>n\<close>-th are not called and keep their state, no service is called, and no
  \<open>postProcess\<close> is run, not even for the interceptors whose \<open>preProcess\<close> had run.
\<close>

theorem rejection_returns_early:
  assumes "n < length (interceptors srv)"
    and "\<forall>m<n. preProcess clk (interceptors srv ! m) request (ws m)
                  = (True, request, is' m, ws (Suc m))"
    and "preProcess clk (interceptors srv ! n) request (ws n)
           = (False, request, is' n, ws (Suc n))"
  shows "processRequest D clk srv request (ws 0)
           = Inr (''ERROR: Request rejected by interceptor'',
                  srv\<lparr>interceptors := map is' [0..<Suc n] @ drop (Suc n) (interceptors srv)\<rparr>,
                  ws (Suc n), map pre_call [0..<Suc n])"
  using run_preProcess_first_rejecting [OF assms, of 0]
  by (simp add: processRequest_def rejected_response_def)

theorem rejection_returns_early_witness:
  "preProcess clock0 (AuthenticationInterceptor ''secret123'') ''TOKEN:secret123 ECHO Hi'' world0
     = (True, ''TOKEN:secret123 ECHO Hi'', AuthenticationInterceptor ''secret123'', world0)
   \<and> preProcess clock0 (LoggingInterceptor 7) ''TOKEN:secret123 ECHO Hi'' world0
       = (True, ''TOKEN:secret123 ECHO Hi'', LoggingInterceptor 0, world0\<lparr>clock_reads := 1\<rparr>)
   \<and> preProcess clock0 (RateLimitingInterceptor 0 0 0) ''TOKEN:secret123 ECHO Hi''
         (world0\<lparr>clock_reads := 1\<rparr>)
       = (False, ''TOKEN:secret123 ECHO Hi'', RateLimitingInterceptor 0 0 0,
          world0\<lparr>clock_reads := 2\<rparr>)
   \<and> processRequest example_ops clock0
        \<lparr>services = [EchoService, CalculatorService, FileService],
           interceptors = [AuthenticationInterceptor ''secret123'', LoggingInterceptor 7,
                           RateLimitingInterceptor 0 0 0, ValidationInterceptor]\<rparr>
        ''TOKEN:secret123 ECHO Hi'' world0
       = Inr (''ERROR: Request rejected by interceptor'',
              \<lparr>services = [EchoService, CalculatorService, FileService],
                 interceptors = [AuthenticationInterceptor ''secret123'', LoggingInterceptor 0,
                                 RateLimitingInterceptor 0 0 0, ValidationInterceptor]\<rparr>,
              world0\<lparr>clock_reads := 2\<rparr>, [pre_call 0, pre_call 1, pre_call 2])"
proof -
  let ?q = "''TOKEN:secret123 ECHO Hi''"
  let ?is = "[AuthenticationInterceptor ''secret123'', LoggingInterceptor 7,
              RateLimitingInterceptor 0 0 0, ValidationInterceptor]"
  let ?srv = "\<lparr>services = [EchoService, CalculatorService, FileService], interceptors = ?is\<rparr>"
  let ?ws = "\<lambda>m. world0\<lparr>clock_reads := m - 1\<rparr>"
  let ?is' = "\<lambda>m. [AuthenticationInterceptor ''secret123'', LoggingInterceptor 0,
                     RateLimitingInterceptor 0 0 0] ! m"
  have w0: "?ws 0 = world0" by (simp add: world0_def)
  have a: "preProcess clock0 (AuthenticationInterceptor ''secret123'') ?q world0
     = (True, ?q, AuthenticationInterceptor ''secret123'', world0)"
    by (simp add: AuthenticationInterceptor_preProcess_def starts_with_def is_space_def)
  have b: "preProcess clock0 (LoggingInterceptor 7) ?q world0
       = (True, ?q, LoggingInterceptor 0, world0\<lparr>clock_reads := 1\<rparr>)"
    by (simp add: steady_clock_now_def LoggingInterceptor_preProcess_def clock0_def world0_def)
  have c: "preProcess clock0 (RateLimitingInterceptor 0 0 0) ?q (world0\<lparr>clock_reads := 1\<rparr>)
       = (False, ?q, RateLimitingInterceptor 0 0 0, world0\<lparr>clock_reads := 2\<rparr>)"
    by (simp add: steady_clock_now_def RateLimitingInterceptor_preProcess_def to_seconds_def
          clock0_def)
  have h1: "2 < length (interceptors ?srv)" by simp
  have h2: "\<forall>m<2. preProcess clock0 (interceptors ?srv ! m) ?q (?ws m)
                  = (True, ?q, ?is' m, ?ws (Suc m))"
  proof (intro allI impI)
    fix m :: nat assume "m < 2"
    then have "m = 0 \<or> m = 1" by auto
    then show "preProcess clock0 (interceptors ?srv ! m) ?q (?ws m)
                  = (True, ?q, ?is' m, ?ws (Suc m))"
      using a b w0 by auto
  qed
  have h3: "preProcess clock0 (interceptors ?srv ! 2) ?q (?ws 2)
           = (False, ?q, ?is' 2, ?ws (Suc 2))"
    using c by (simp add: eval_nat_numeral)
  have "processRequest example_ops clock0 ?srv ?q (?ws 0)
           = Inr (''ERROR: Request rejected by interceptor'',
                  ?srv\<lparr>interceptors := map ?is' [0..<Suc 2] @ drop (Suc 2) (interceptors ?srv)\<rparr>,
                  ?ws (Suc 2), map pre_call [0..<Suc 2])"
    by (rule rejection_returns_early [OF h1 h2 h3])
  then have "processRequest example_ops clock0 ?srv ?q world0
       = Inr (''ERROR: Request rejected by interceptor'',
              \<lparr>services = [EchoService, CalculatorService, FileService],
                 interceptors = [AuthenticationInterceptor ''secret123'', LoggingInterceptor 0,
                                 RateLimitingInterceptor 0 0 0, ValidationInterceptor]\<rparr>,
              world0\<lparr>clock_reads := 2\<rparr>, [pre_call 0, pre_call 1, pre_call 2])"
    unfolding w0 by (simp add: eval_nat_numeral upt_rec)
  then show ?thesis using a b c by simp
qed

text \<open>
  The claim as stated asks for the \<open>postProcess\<close> of the interceptors whose \<open>preProcess\<close>
  had run. With the authentication and the validation interceptor, a request with the
  right token and no command passes the first and is rejected by the second: both
  \<open>preProcess\<close> calls are made and no \<open>postProcess\<close>.
\<close>

theorem rejection_no_unwind_counterexample:
  "map_sum id (\<lambda>(response, srv', w', tr). (response, tr))
     (processRequest example_ops clock0
        \<lparr>services = [EchoService, CalculatorService, FileService],
           interceptors = [AuthenticationInterceptor ''secret123'', ValidationInterceptor]\<rparr>
        ''TOKEN:secret123 FOO'' world0)
     = Inr (''ERROR: Request rejected by interceptor'', [pre_call 0, pre_call 1])
   \<and> post_call 0 \<notin> set [pre_call 0, pre_call 1]"
  by (simp add: processRequest_def rejected_response_def
        AuthenticationInterceptor_preProcess_def ValidationInterceptor_preProcess_def
        validCommands_def starts_with_def is_space_def)


section \<open>Dispatch to the services\<close>

lemma empty_response_keeps_fs:
  "IService_processRequest D s request fs = Inr ([], fs1) \<Longrightarrow> fs1 = fs"
proof (cases s)
  case EchoService
  assume "IService_processRequest D s request fs = Inr ([], fs1)"
  then show ?thesis using EchoService by (auto split: sum.splits)
next
  case CalculatorService
  assume "IService_processRequest D s request fs = Inr ([], fs1)"
  then show ?thesis using CalculatorService by (auto split: sum.splits)
next
  case FileService
  assume "IService_processRequest D s request fs = Inr ([], fs1)"
  then show ?thesis using FileService
    by (auto simp: FileService_processRequest_def writeFile_def
          split: option.splits sum.splits if_splits)
qed

lemma response_of_empty:
  "response_of D s request fs = Inr [] \<Longrightarrow> IService_processRequest D s request fs = Inr ([], fs)"
proof -
  assume a: "response_of D s request fs = Inr []"
  then obtain fs1 where b: "IService_processRequest D s request fs = Inr ([], fs1)"
    by (cases "IService_processRequest D s request fs") (auto simp: response_of_def)
  then show ?thesis using empty_response_keeps_fs [OF b] by simp
qed

lemma dispatch_first:
  "n < length ss \<Longrightarrow> \<forall>m<n. response_of D (ss ! m) request fs = Inr []
     \<Longrightarrow> IService_processRequest D (ss ! n) request fs = Inr (r, fs') \<Longrightarrow> r \<noteq> []
     \<Longrightarrow> dispatch D j ss request fs
           = Inr (r, fs', map (\<lambda>i. handler_call i request) [j..<j + Suc n])"
proof (induction ss arbitrary: j n)
  case Nil
  then show ?case by simp
next
  case (Cons s ss)
  show ?case
  proof (cases n)
    case 0
    then show ?thesis using Cons.prems by simp
  next
    case (Suc n')
    have "response_of D ((s # ss) ! 0) request fs = Inr []" using Cons.prems(2) Suc by blast
    then have s: "IService_processRequest D s request fs = Inr ([], fs)"
      using response_of_empty by simp
    have a: "n' < length ss" using Cons.prems(1) Suc by simp
    have b: "\<forall>m<n'. response_of D (ss ! m) request fs = Inr []"
    proof (intro allI impI)
      fix m assume "m < n'"
      then have "Suc m < n" using Suc by simp
      then have "response_of D ((s # ss) ! Suc m) request fs = Inr []"
        using Cons.prems(2) by blast
      then show "response_of D (ss ! m) request fs = Inr []" by simp
    qed
    have c: "IService_processRequest D (ss ! n') request fs = Inr (r, fs')"
      using Cons.prems(3) Suc by simp
    have "dispatch D (Suc j) ss request fs
            = Inr (r, fs', map (\<lambda>i. handler_call i request) [Suc j..<Suc j + Suc n'])"
      by (rule Cons.IH [OF a b c Cons.prems(4)])
    then show ?thesis using s Suc upt_add_Suc [of j "Suc n'"] by simp
  qed
qed

lemma dispatch_none:
  "\<forall>m<length ss. response_of D (ss ! m) request fs = Inr []
     \<Longrightarrow> dispatch D j ss request fs
           = Inr ([], fs, map (\<lambda>i. handler_call i request) [j..<j + length ss])"
proof (induction ss arbitrary: j)
  case Nil
  then show ?case by simp
next
  case (Cons s ss)
  have "response_of D ((s # ss) ! 0) request fs = Inr []" using Cons.prems by blast
  then have s: "IService_processRequest D s request fs = Inr ([], fs)"
    using response_of_empty by simp
  have b: "\<forall>m<length ss. response_of D (ss ! m) request fs = Inr []"
  proof (intro allI impI)
    fix m assume "m < length ss"
    then have "Suc m < length (s # ss)" by simp
    then have "response_of D ((s # ss) ! Suc m) request fs = Inr []"
      using Cons.prems by blast
    then show "response_of D (ss ! m) request fs = Inr []" by simp
  qed
  have "dispatch D (Suc j) ss request fs
          = Inr ([], fs, map (\<lambda>i. handler_call i request) [Suc j..<Suc j + length ss])"
    by (rule Cons.IH [OF b])
  then show ?case using s upt_add_Suc [of j "length ss"] by simp
qed

text \<open>The pipeline after a pre-pass that accepts and a dispatch that returns.\<close>

lemma processRequest_accepted:
  assumes pre: "run_preProcess clk 0 (interceptors srv) request w = (True, pr, is1, w1, tr1)"
    and d: "dispatch D 0 (services srv) request (fsys w1) = Inr (r, fs', tr2)"
  shows "\<exists>srv' w'. processRequest D clk srv request w
           = Inr ((if r = [] then no_service_response else r), srv', w',
                  map pre_call [0..<length (interceptors srv)] @ tr2
                  @ map post_call [0..<length (interceptors srv)])"
proof -
  let ?r1 = "if r = [] then no_service_response else r"
  have pr: "pr = request" by (rule run_preProcess_request [OF pre])
  have tr1: "tr1 = map pre_call [0..<0 + length (interceptors srv)]"
    by (rule run_preProcess_accept_trace [OF pre])
  have len: "length is1 = length (interceptors srv)" by (rule preProcess_length [OF pre])
  obtain r2 is2 w3 tr3
    where po: "run_postProcess clk 0 is1 request ?r1 (w1\<lparr>fsys := fs'\<rparr>) = (r2, is2, w3, tr3)"
    by (metis prod_cases4)
  have ne: "?r1 \<noteq> []" by (simp add: no_service_response_def)
  have r2: "r2 = ?r1" by (rule run_postProcess_nonempty [OF po ne])
  have tr3: "tr3 = map post_call [0..<0 + length is1]" by (rule run_postProcess_trace [OF po])
  have "processRequest D clk srv request w
          = Inr (r2, srv\<lparr>interceptors := is2\<rparr>, w3, tr1 @ tr2 @ tr3)"
    using pre pr d po by (simp add: processRequest_def Let_def)
  then show ?thesis using r2 tr1 tr3 len by simp
qed

text \<open>
  C2. For a request that reaches dispatch (every \<open>preProcess\<close> accepted it): if the
  services before the \<open>n\<close>-th return the empty string and the \<open>n\<close>-th returns \<open>r\<close>, not
  empty, then the response is \<open>r\<close> and the service calls of the execution are those of
  the services \<open>0, \<dots>, n\<close> in this order, none after the \<open>n\<close>-th; if every service
  returns the empty string, all are called in order and the response is the fixed
  string \<open>ERROR: No service available to handle request\<close>.
\<close>

theorem dispatch_first_nonempty_wins:
  assumes "run_preProcess clk 0 (interceptors srv) request w = (True, pr, is1, w1, tr1)"
  shows "(n < length (services srv)
            \<and> (\<forall>m<n. response_of D (services srv ! m) request (fsys w1) = Inr [])
            \<and> response_of D (services srv ! n) request (fsys w1) = Inr r \<and> r \<noteq> []
          \<longrightarrow> (\<exists>srv' w'. processRequest D clk srv request w
                  = Inr (r, srv', w',
                         map pre_call [0..<length (interceptors srv)]
                         @ map (\<lambda>i. handler_call i request) [0..<Suc n]
                         @ map post_call [0..<length (interceptors srv)])))
       \<and> ((\<forall>m<length (services srv). response_of D (services srv ! m) request (fsys w1) = Inr [])
          \<longrightarrow> (\<exists>srv' w'. processRequest D clk srv request w
                  = Inr (''ERROR: No service available to handle request'', srv', w',
                         map pre_call [0..<length (interceptors srv)]
                         @ map (\<lambda>i. handler_call i request) [0..<length (services srv)]
                         @ map post_call [0..<length (interceptors srv)])))"
proof (intro conjI impI)
  assume a: "n < length (services srv)
            \<and> (\<forall>m<n. response_of D (services srv ! m) request (fsys w1) = Inr [])
            \<and> response_of D (services srv ! n) request (fsys w1) = Inr r \<and> r \<noteq> []"
  then obtain fs' where s: "IService_processRequest D (services srv ! n) request (fsys w1) = Inr (r, fs')"
    by (cases "IService_processRequest D (services srv ! n) request (fsys w1)")
       (auto simp: response_of_def)
  have d: "dispatch D 0 (services srv) request (fsys w1)
             = Inr (r, fs', map (\<lambda>i. handler_call i request) [0..<0 + Suc n])"
    using a s by (intro dispatch_first) simp_all
  show "\<exists>srv' w'. processRequest D clk srv request w
                  = Inr (r, srv', w',
                         map pre_call [0..<length (interceptors srv)]
                         @ map (\<lambda>i. handler_call i request) [0..<Suc n]
                         @ map post_call [0..<length (interceptors srv)])"
    using processRequest_accepted [OF assms d] a by simp
next
  assume a: "\<forall>m<length (services srv). response_of D (services srv ! m) request (fsys w1) = Inr []"
  have d: "dispatch D 0 (services srv) request (fsys w1)
             = Inr ([], fsys w1, map (\<lambda>i. handler_call i request) [0..<0 + length (services srv)])"
    by (rule dispatch_none [OF a])
  show "\<exists>srv' w'. processRequest D clk srv request w
                  = Inr (''ERROR: No service available to handle request'', srv', w',
                         map pre_call [0..<length (interceptors srv)]
                         @ map (\<lambda>i. handler_call i request) [0..<length (services srv)]
                         @ map post_call [0..<length (interceptors srv)])"
    using processRequest_accepted [OF assms d] by (simp add: no_service_response_def)
qed


theorem dispatch_first_nonempty_wins_witness:
  "run_preProcess clock0 0 (interceptors hft_server) ''TOKEN:secret123 CAL 2 + 3'' world0
     = (True, ''TOKEN:secret123 CAL 2 + 3'', interceptors hft_server, world0, [pre_call 0])
   \<and> response_of example_ops (services hft_server ! 0) ''TOKEN:secret123 CAL 2 + 3'' (fsys world0)
       = Inr []
   \<and> response_of example_ops (services hft_server ! 1) ''TOKEN:secret123 CAL 2 + 3'' (fsys world0)
       = Inr ''RESULT: 3''
   \<and> (\<exists>srv' w'. processRequest example_ops clock0 hft_server ''TOKEN:secret123 CAL 2 + 3'' world0
         = Inr (''RESULT: 3'', srv', w',
                [pre_call 0, handler_call 0 ''TOKEN:secret123 CAL 2 + 3'',
                 handler_call 1 ''TOKEN:secret123 CAL 2 + 3'', post_call 0]))
   \<and> run_preProcess clock0 0 (interceptors hft_server) ''TOKEN:secret123 FOO'' world0
       = (True, ''TOKEN:secret123 FOO'', interceptors hft_server, world0, [pre_call 0])
   \<and> map (\<lambda>s. response_of example_ops s ''TOKEN:secret123 FOO'' (fsys world0)) (services hft_server)
       = [Inr [], Inr [], Inr []]
   \<and> (\<exists>srv' w'. processRequest example_ops clock0 hft_server ''TOKEN:secret123 FOO'' world0
         = Inr (''ERROR: No service available to handle request'', srv', w',
                [pre_call 0, handler_call 0 ''TOKEN:secret123 FOO'',
                 handler_call 1 ''TOKEN:secret123 FOO'', handler_call 2 ''TOKEN:secret123 FOO'',
                 post_call 0]))"
proof -
  let ?q = "''TOKEN:secret123 CAL 2 + 3''"
  let ?u = "''TOKEN:secret123 FOO''"
  have len: "length (services hft_server) = 3" "length (interceptors hft_server) = 1"
    by (simp_all add: hft_server_def)
  have p1: "run_preProcess clock0 0 (interceptors hft_server) ?q world0
     = (True, ?q, interceptors hft_server, world0, [pre_call 0])"
    by (simp add: hft_server_def AuthenticationInterceptor_preProcess_def starts_with_def
          is_space_def)
  have a0: "response_of example_ops (services hft_server ! 0) ?q (fsys world0) = Inr []"
    by code_simp
  have a1: "response_of example_ops (services hft_server ! 1) ?q (fsys world0) = Inr ''RESULT: 3''"
    by code_simp
  have a: "1 < length (services hft_server)
            \<and> (\<forall>m<1. response_of example_ops (services hft_server ! m) ?q (fsys world0) = Inr [])
            \<and> response_of example_ops (services hft_server ! 1) ?q (fsys world0) = Inr ''RESULT: 3''
            \<and> ''RESULT: 3'' \<noteq> []"
    using a0 a1 len by simp
  have c1: "\<exists>srv' w'. processRequest example_ops clock0 hft_server ?q world0
         = Inr (''RESULT: 3'', srv', w',
                [pre_call 0, handler_call 0 ?q, handler_call 1 ?q, post_call 0])"
    using dispatch_first_nonempty_wins [OF p1, of 1 example_ops "''RESULT: 3''"] a len
    by (simp add: upt_rec)
  have p2: "run_preProcess clock0 0 (interceptors hft_server) ?u world0
     = (True, ?u, interceptors hft_server, world0, [pre_call 0])"
    by (simp add: hft_server_def AuthenticationInterceptor_preProcess_def starts_with_def
          is_space_def)
  have b: "map (\<lambda>s. response_of example_ops s ?u (fsys world0)) (services hft_server)
       = [Inr [], Inr [], Inr []]"
    by code_simp
  have b': "\<forall>m<length (services hft_server).
              response_of example_ops (services hft_server ! m) ?u (fsys world0) = Inr []"
  proof (intro allI impI)
    fix m assume m: "m < length (services hft_server)"
    have "map (\<lambda>s. response_of example_ops s ?u (fsys world0)) (services hft_server) ! m = Inr []"
      using m len unfolding b by (simp add: nth_Cons split: nat.splits)
    then show "response_of example_ops (services hft_server ! m) ?u (fsys world0) = Inr []"
      using m by simp
  qed
  have c2: "\<exists>srv' w'. processRequest example_ops clock0 hft_server ?u world0
         = Inr (''ERROR: No service available to handle request'', srv', w',
                [pre_call 0, handler_call 0 ?u, handler_call 1 ?u, handler_call 2 ?u,
                 post_call 0])"
    using dispatch_first_nonempty_wins [OF p2, of 0 example_ops "[]"] b' len
    by (simp add: upt_rec eval_nat_numeral)
  show ?thesis using p1 a0 a1 c1 p2 b c2 by blast
qed

section \<open>The request seen by the services\<close>

text \<open>
  C10. No \<open>preProcess\<close> of a built-in interceptor (logging, authentication, rate
  limiting, validation) changes its request argument, whatever the request, and so
  every service called in a pipeline execution is called with the request the
  pipeline was given.
\<close>

theorem preProcess_keeps_request:
  "(preProcess clk i request w = (ok, request', i', w') \<longrightarrow> request' = request)
   \<and> (processRequest D clk srv request w = Inr (response, srv', w1, tr)
        \<longrightarrow> (\<forall>j r. handler_call j r \<in> set tr \<longrightarrow> r = request))"
proof (intro conjI impI allI)
  assume "preProcess clk i request w = (ok, request', i', w')"
  then show "request' = request" by (rule preProcess_request)
next
  fix j r
  assume run: "processRequest D clk srv request w = Inr (response, srv', w1, tr)"
    and mem: "handler_call j r \<in> set tr"
  obtain ok1 pr is1 w2 tr1
    where pre: "run_preProcess clk 0 (interceptors srv) request w = (ok1, pr, is1, w2, tr1)"
    by (metis prod_cases5)
  have pr: "pr = request" by (rule run_preProcess_request [OF pre])
  show "r = request"
  proof (cases ok1)
    case False
    then have "run_preProcess clk 0 (interceptors srv) request w = (False, pr, is1, w2, tr1)"
      using pre by simp
    then obtain n where "tr1 = map pre_call [0..<0 + Suc n]"
      using run_preProcess_reject_trace by blast
    moreover have "tr = tr1" using run pre False by (simp add: processRequest_def)
    ultimately show ?thesis using mem by auto
  next
    case True
    then obtain resp fs2 tr2
      where d: "dispatch D 0 (services srv) request (fsys w2) = Inr (resp, fs2, tr2)"
      using run pre pr by (auto simp: processRequest_def split: sum.splits)
    have pre': "run_preProcess clk 0 (interceptors srv) request w = (True, pr, is1, w2, tr1)"
      using pre True by simp
    obtain srv2 w3 where "processRequest D clk srv request w
           = Inr ((if resp = [] then no_service_response else resp), srv2, w3,
                  map pre_call [0..<length (interceptors srv)] @ tr2
                  @ map post_call [0..<length (interceptors srv)])"
      using processRequest_accepted [OF pre' d] by blast
    then have "tr = map pre_call [0..<length (interceptors srv)] @ tr2
                  @ map post_call [0..<length (interceptors srv)]"
      using run by simp
    then have "handler_call j r \<in> set tr2" using mem by auto
    moreover obtain n where "tr2 = map (\<lambda>i. handler_call i request) [0..<0 + n]"
      using dispatch_trace [OF d] by blast
    ultimately show ?thesis by auto
  qed
qed

theorem preProcess_keeps_request_witness:
  "preProcess clock0 (RateLimitingInterceptor 5 0 0) ''TOKEN:secret123 ECHO Hello World'' world0
     = (True, ''TOKEN:secret123 ECHO Hello World'', RateLimitingInterceptor 5 1 0,
        world0\<lparr>clock_reads := 1\<rparr>)
   \<and> processRequest example_ops clock0 hft_server ''TOKEN:secret123 ECHO Hello World'' world0
       = Inr (''ECHO: Hello World'', hft_server, world0,
              [pre_call 0, handler_call 0 ''TOKEN:secret123 ECHO Hello World'', post_call 0])
   \<and> handler_call 0 ''TOKEN:secret123 ECHO Hello World''
       \<in> set [pre_call 0, handler_call 0 ''TOKEN:secret123 ECHO Hello World'', post_call 0]"
proof -
  let ?q = "''TOKEN:secret123 ECHO Hello World''"
  have a: "preProcess clock0 (RateLimitingInterceptor 5 0 0) ?q world0
     = (True, ?q, RateLimitingInterceptor 5 1 0, world0\<lparr>clock_reads := 1\<rparr>)"
    by (simp add: steady_clock_now_def RateLimitingInterceptor_preProcess_def to_seconds_def
          clock0_def world0_def)
  have b: "processRequest example_ops clock0 hft_server ?q world0
       = Inr (''ECHO: Hello World'', hft_server, world0,
              [pre_call 0, handler_call 0 ?q, post_call 0])"
    by (simp add: processRequest_def hft_server_def world0_def
          AuthenticationInterceptor_preProcess_def EchoService_processRequest_def
          substr_def starts_with_def is_space_def)
  have "?q = ?q"
    using preProcess_keeps_request
      [of clock0 "RateLimitingInterceptor 5 0 0" ?q world0 True ?q "RateLimitingInterceptor 5 1 0"
          "world0\<lparr>clock_reads := 1\<rparr>" example_ops hft_server "''ECHO: Hello World''"
          hft_server world0 "[pre_call 0, handler_call 0 ?q, post_call 0]"] a b
    by simp
  then show ?thesis using a b by simp
qed


section \<open>Rate limiting\<close>

lemma to_seconds_less: "d < 60000000000 \<Longrightarrow> to_seconds d < 60"
  by (auto simp: to_seconds_def)

lemma to_seconds_ge: "60000000000 \<le> d \<Longrightarrow> 60 \<le> to_seconds d"
  by (auto simp: to_seconds_def)

lemma rate_limit_in_window:
  "clk (clock_reads w) - t0 < 60000000000 \<Longrightarrow>
   preProcess clk (RateLimitingInterceptor K cur t0) request w
     = (cur < K, request, RateLimitingInterceptor K (if cur < K then cur + 1 else cur) t0,
        w\<lparr>clock_reads := Suc (clock_reads w)\<rparr>)"
  using to_seconds_less [of "clk (clock_reads w) - t0"]
  by (auto simp: steady_clock_now_def RateLimitingInterceptor_preProcess_def Let_def)

lemma rate_limit_calls_in_window:
  "\<forall>m<n. clk (clock_reads w + m) - t0 < 60000000000 \<Longrightarrow> cur \<le> K \<Longrightarrow>
   preProcess_calls clk n (RateLimitingInterceptor K cur t0) request w
     = replicate (min n (nat (K - cur))) True @ replicate (n - nat (K - cur)) False"
proof (induction n arbitrary: cur w)
  case 0
  show ?case by simp
next
  case (Suc n)
  have now: "clk (clock_reads w) - t0 < 60000000000" using Suc.prems(1) [rule_format, of 0] by simp
  let ?w = "w\<lparr>clock_reads := Suc (clock_reads w)\<rparr>"
  have later: "\<forall>m<n. clk (clock_reads ?w + m) - t0 < 60000000000"
  proof (intro allI impI)
    fix m assume "m < n"
    then have "clk (clock_reads w + Suc m) - t0 < 60000000000"
      using Suc.prems(1) [rule_format, of "Suc m"] by simp
    then show "clk (clock_reads ?w + m) - t0 < 60000000000" by simp
  qed
  show ?case
  proof (cases "cur < K")
    case True
    have ih: "preProcess_calls clk n (RateLimitingInterceptor K (cur + 1) t0) request ?w
       = replicate (min n (nat (K - (cur + 1)))) True @ replicate (n - nat (K - (cur + 1))) False"
      using Suc.IH [OF later, of "cur + 1"] True by simp
    have k: "nat (K - cur) = Suc (nat (K - (cur + 1)))" using True by simp
    show ?thesis
      using rate_limit_in_window [of clk w t0 K cur request] now True ih k by simp
  next
    case False
    then have eq: "cur = K" using Suc.prems(2) by simp
    have ih: "preProcess_calls clk n (RateLimitingInterceptor K cur t0) request ?w
       = replicate (min n (nat (K - cur))) True @ replicate (n - nat (K - cur)) False"
      using Suc.IH [OF later Suc.prems(2)] .
    show ?thesis
      using rate_limit_in_window [of clk w t0 K cur request] now False ih eq by simp
  qed
qed

lemma rate_limit_nonpositive:
  "K \<le> 0 \<Longrightarrow> 0 \<le> cur
     \<Longrightarrow> preProcess_calls clk n (RateLimitingInterceptor K cur lastT) request w
           = replicate n False"
proof (induction n arbitrary: cur lastT w)
  case 0
  show ?case by simp
next
  case (Suc n)
  let ?now = "clk (clock_reads w)"
  let ?w = "w\<lparr>clock_reads := Suc (clock_reads w)\<rparr>"
  show ?case
  proof (cases "60 \<le> to_seconds (?now - lastT)")
    case True
    then have "preProcess clk (RateLimitingInterceptor K cur lastT) request w
                 = (False, request, RateLimitingInterceptor K 0 ?now, ?w)"
      using Suc.prems(1)
      by (simp add: steady_clock_now_def RateLimitingInterceptor_preProcess_def Let_def)
    then show ?thesis using Suc.IH [OF Suc.prems(1), of 0 ?now ?w] by simp
  next
    case False
    then have "preProcess clk (RateLimitingInterceptor K cur lastT) request w
                 = (False, request, RateLimitingInterceptor K cur lastT, ?w)"
      using Suc.prems
      by (simp add: steady_clock_now_def RateLimitingInterceptor_preProcess_def Let_def)
    then show ?thesis using Suc.IH [OF Suc.prems, of lastT ?w] by simp
  qed
qed

lemma rate_limit_reset:
  "60000000000 \<le> clk (clock_reads w) - lastT \<Longrightarrow> 1 \<le> K
     \<Longrightarrow> preProcess clk (RateLimitingInterceptor K cur lastT) request w
           = (True, request, RateLimitingInterceptor K 1 (clk (clock_reads w)),
              w\<lparr>clock_reads := Suc (clock_reads w)\<rparr>)"
  using to_seconds_ge [of "clk (clock_reads w) - lastT"]
  by (simp add: steady_clock_now_def RateLimitingInterceptor_preProcess_def Let_def)

lemma rate_limit_new_window:
  assumes k: "1 \<le> K" and r: "60000000000 \<le> clk (clock_reads w) - lastT"
    and later: "\<forall>m. 1 \<le> m \<and> m \<le> nat K
                  \<longrightarrow> clk (clock_reads w + m) - clk (clock_reads w) < 60000000000"
  shows "preProcess_calls clk (Suc (nat K)) (RateLimitingInterceptor K cur lastT) request w
           = replicate (nat K) True @ [False]"
proof -
  let ?now = "clk (clock_reads w)"
  let ?w = "w\<lparr>clock_reads := Suc (clock_reads w)\<rparr>"
  have first: "preProcess clk (RateLimitingInterceptor K cur lastT) request w
           = (True, request, RateLimitingInterceptor K 1 ?now, ?w)"
    using rate_limit_reset [of clk w lastT K cur request] r k by simp
  have win: "\<forall>m<nat K. clk (clock_reads ?w + m) - ?now < 60000000000"
  proof (intro allI impI)
    fix m assume "m < nat K"
    then have "1 \<le> Suc m \<and> Suc m \<le> nat K" by simp
    then have "clk (clock_reads w + Suc m) - ?now < 60000000000" using later by blast
    then show "clk (clock_reads ?w + m) - ?now < 60000000000" by simp
  qed
  have rest: "preProcess_calls clk (nat K) (RateLimitingInterceptor K 1 ?now) request ?w
     = replicate (min (nat K) (nat (K - 1))) True @ replicate (nat K - nat (K - 1)) False"
    using rate_limit_calls_in_window [OF win, of 1 K request] k by simp
  have a: "min (nat K) (nat (K - 1)) = nat K - 1" using k by simp
  have b: "nat K - nat (K - 1) = 1" using k by simp
  have c: "True # replicate (nat K - 1) True = replicate (nat K) True"
    using k by (cases "nat K") simp_all
  have "preProcess_calls clk (Suc (nat K)) (RateLimitingInterceptor K cur lastT) request w
          = True # replicate (nat K - 1) True @ [False]"
    using first rest a b by simp
  then show ?thesis using c by (metis append_Cons)
qed

text \<open>The counter starts at zero (the constructor), and no call makes it negative.\<close>

lemma rate_limit_counter_nonnegative:
  "0 \<le> cur \<Longrightarrow>
     \<exists>ok cur' t'. preProcess clk (RateLimitingInterceptor K cur lastT) request w
                      = (ok, request, RateLimitingInterceptor K cur' t',
                         w\<lparr>clock_reads := Suc (clock_reads w)\<rparr>)
                    \<and> 0 \<le> cur'"
  by (auto simp: steady_clock_now_def RateLimitingInterceptor_preProcess_def Let_def)

text \<open>
  C8 (amended). For the rate-limiting interceptor with limit \<open>K \<ge> 0\<close> and its counter
  at zero: of \<open>K + 1\<close> calls of \<open>preProcess\<close> made less than 60 seconds after the last
  reset, the first \<open>K\<close> return true and the last returns false. For a limit \<open>K \<ge> 1\<close>: a
  call made 60 seconds or more after the last reset sets the counter to zero, takes the
  time of the call as the time of the reset, returns true and leaves the counter at 1;
  it is the first call of a new window: of \<open>K + 1\<close> calls, the first such a call and the
  others less than 60 seconds after it, the first \<open>K\<close> return true and the last returns
  false. In general, of \<open>n\<close> calls made less than 60 seconds after the last reset with
  the counter at \<open>cur \<le> K\<close>, the first \<open>K - cur\<close> return true and the others false. For
  a limit \<open>K \<le> 0\<close> and a counter that is not negative (a new interceptor has it at zero,
  and no call makes it negative) every call returns false, whatever the time.
\<close>

theorem rate_limit_window:
  "(0 \<le> K \<and> (\<forall>m \<le> nat K. clk (clock_reads w + m) - t0 < 60000000000)
      \<longrightarrow> preProcess_calls clk (Suc (nat K)) (RateLimitingInterceptor K 0 t0) request w
            = replicate (nat K) True @ [False])
   \<and> (1 \<le> K \<and> 60000000000 \<le> clk (clock_reads w) - lastT
      \<longrightarrow> preProcess clk (RateLimitingInterceptor K cur lastT) request w
            = (True, request, RateLimitingInterceptor K 1 (clk (clock_reads w)),
               w\<lparr>clock_reads := Suc (clock_reads w)\<rparr>))
   \<and> (1 \<le> K \<and> 60000000000 \<le> clk (clock_reads w) - lastT
        \<and> (\<forall>m. 1 \<le> m \<and> m \<le> nat K
              \<longrightarrow> clk (clock_reads w + m) - clk (clock_reads w) < 60000000000)
      \<longrightarrow> preProcess_calls clk (Suc (nat K)) (RateLimitingInterceptor K cur lastT) request w
            = replicate (nat K) True @ [False])
   \<and> (cur \<le> K \<and> (\<forall>m<n. clk (clock_reads w + m) - lastT < 60000000000)
      \<longrightarrow> preProcess_calls clk n (RateLimitingInterceptor K cur lastT) request w
            = replicate (min n (nat (K - cur))) True @ replicate (n - nat (K - cur)) False)
   \<and> (K \<le> 0 \<and> 0 \<le> cur
      \<longrightarrow> preProcess_calls clk n (RateLimitingInterceptor K cur lastT) request w
            = replicate n False)"
proof (intro conjI impI)
  assume a: "0 \<le> K \<and> (\<forall>m \<le> nat K. clk (clock_reads w + m) - t0 < 60000000000)"
  then have "\<forall>m<Suc (nat K). clk (clock_reads w + m) - t0 < 60000000000" by auto
  from rate_limit_calls_in_window [OF this, of 0 K request] a
  show "preProcess_calls clk (Suc (nat K)) (RateLimitingInterceptor K 0 t0) request w
            = replicate (nat K) True @ [False]"
    by simp
next
  assume "1 \<le> K \<and> 60000000000 \<le> clk (clock_reads w) - lastT"
  then show "preProcess clk (RateLimitingInterceptor K cur lastT) request w
            = (True, request, RateLimitingInterceptor K 1 (clk (clock_reads w)),
               w\<lparr>clock_reads := Suc (clock_reads w)\<rparr>)"
    using rate_limit_reset by blast
next
  assume "1 \<le> K \<and> 60000000000 \<le> clk (clock_reads w) - lastT
        \<and> (\<forall>m. 1 \<le> m \<and> m \<le> nat K
              \<longrightarrow> clk (clock_reads w + m) - clk (clock_reads w) < 60000000000)"
  then show "preProcess_calls clk (Suc (nat K)) (RateLimitingInterceptor K cur lastT) request w
            = replicate (nat K) True @ [False]"
    using rate_limit_new_window by blast
next
  assume "cur \<le> K \<and> (\<forall>m<n. clk (clock_reads w + m) - lastT < 60000000000)"
  then show "preProcess_calls clk n (RateLimitingInterceptor K cur lastT) request w
            = replicate (min n (nat (K - cur))) True @ replicate (n - nat (K - cur)) False"
    using rate_limit_calls_in_window by blast
next
  assume "K \<le> 0 \<and> 0 \<le> cur"
  then show "preProcess_calls clk n (RateLimitingInterceptor K cur lastT) request w
            = replicate n False"
    using rate_limit_nonpositive by blast
qed

theorem rate_limit_window_witness:
  "preProcess_calls clock0 3 (RateLimitingInterceptor 2 0 0) ''x'' world0 = [True, True, False]
   \<and> clock0 60 - 0 = 60000000000
   \<and> preProcess clock0 (RateLimitingInterceptor 2 2 0) ''x'' (world0\<lparr>clock_reads := 60\<rparr>)
       = (True, ''x'', RateLimitingInterceptor 2 1 60000000000, world0\<lparr>clock_reads := 61\<rparr>)
   \<and> preProcess_calls clock0 3 (RateLimitingInterceptor 2 2 0) ''x'' (world0\<lparr>clock_reads := 60\<rparr>)
       = [True, True, False]
   \<and> preProcess_calls clock0 4 (RateLimitingInterceptor 3 1 0) ''x'' world0
       = [True, True, False, False]
   \<and> preProcess_calls clock0 2 (RateLimitingInterceptor 0 0 0) ''x'' (world0\<lparr>clock_reads := 59\<rparr>)
       = [False, False]"
proof -
  have h1: "(0::int) \<le> 2 \<and> (\<forall>m \<le> nat 2. clock0 (clock_reads world0 + m) - 0 < 60000000000)"
    by (auto simp: clock0_def world0_def)
  have h2: "(1::int) \<le> 2
      \<and> 60000000000 \<le> clock0 (clock_reads (world0\<lparr>clock_reads := 60\<rparr>)) - 0"
    by (simp add: clock0_def)
  have h3: "(1::int) \<le> 2
      \<and> 60000000000 \<le> clock0 (clock_reads (world0\<lparr>clock_reads := 60\<rparr>)) - 0
      \<and> (\<forall>m. 1 \<le> m \<and> m \<le> nat 2
            \<longrightarrow> clock0 (clock_reads (world0\<lparr>clock_reads := 60\<rparr>) + m)
                  - clock0 (clock_reads (world0\<lparr>clock_reads := 60\<rparr>)) < 60000000000)"
    by (auto simp: clock0_def)
  have h4: "(1::int) \<le> 3 \<and> (\<forall>m<4. clock0 (clock_reads world0 + m) - 0 < 60000000000)"
    by (auto simp: clock0_def world0_def)
  have h5: "(0::int) \<le> 0 \<and> (0::int) \<le> 0" by simp
  have e3: "Suc (nat 2) = 3" by simp
  have r2: "replicate (nat 2) True @ [False] = [True, True, False]"
    by (simp add: numeral_2_eq_2)
  have t1: "preProcess_calls clock0 (Suc (nat 2)) (RateLimitingInterceptor 2 0 0) ''x'' world0
              = replicate (nat 2) True @ [False]"
    using rate_limit_window [where K = 2 and clk = clock0 and w = world0 and ?t0.0 = 0
        and request = "''x''"] h1
    by blast
  have c1: "preProcess_calls clock0 3 (RateLimitingInterceptor 2 0 0) ''x'' world0
              = [True, True, False]"
    using t1 unfolding e3 r2 .
  have t2: "preProcess clock0 (RateLimitingInterceptor 2 2 0) ''x'' (world0\<lparr>clock_reads := 60\<rparr>)
       = (True, ''x'',
          RateLimitingInterceptor 2 1 (clock0 (clock_reads (world0\<lparr>clock_reads := 60\<rparr>))),
          world0\<lparr>clock_reads := 60\<rparr>\<lparr>clock_reads := Suc (clock_reads (world0\<lparr>clock_reads := 60\<rparr>))\<rparr>)"
    using rate_limit_window [where K = 2 and clk = clock0
        and w = "world0\<lparr>clock_reads := 60\<rparr>" and lastT = 0 and request = "''x''" and cur = 2] h2
    by blast
  have c2: "preProcess clock0 (RateLimitingInterceptor 2 2 0) ''x'' (world0\<lparr>clock_reads := 60\<rparr>)
       = (True, ''x'', RateLimitingInterceptor 2 1 60000000000, world0\<lparr>clock_reads := 61\<rparr>)"
    using t2 by (simp add: clock0_def)
  have t3: "preProcess_calls clock0 (Suc (nat 2)) (RateLimitingInterceptor 2 2 0) ''x''
              (world0\<lparr>clock_reads := 60\<rparr>) = replicate (nat 2) True @ [False]"
    using rate_limit_window [where K = 2 and clk = clock0
        and w = "world0\<lparr>clock_reads := 60\<rparr>" and lastT = 0 and request = "''x''" and cur = 2] h3
    by blast
  have c3: "preProcess_calls clock0 3 (RateLimitingInterceptor 2 2 0) ''x''
              (world0\<lparr>clock_reads := 60\<rparr>) = [True, True, False]"
    using t3 unfolding e3 r2 .
  have t4: "preProcess_calls clock0 4 (RateLimitingInterceptor 3 1 0) ''x'' world0
              = replicate (min 4 (nat (3 - 1))) True @ replicate (4 - nat (3 - 1)) False"
    using rate_limit_window [where K = 3 and clk = clock0 and w = world0 and lastT = 0
        and request = "''x''" and cur = 1 and n = 4] h4
    by blast
  have r4: "replicate (min 4 (nat (3 - 1))) True @ replicate (4 - nat (3 - 1)) False
              = [True, True, False, False]"
    by (simp add: numeral_2_eq_2)
  have c4: "preProcess_calls clock0 4 (RateLimitingInterceptor 3 1 0) ''x'' world0
              = [True, True, False, False]"
    using t4 unfolding r4 .
  have t5: "preProcess_calls clock0 2 (RateLimitingInterceptor 0 0 0) ''x''
              (world0\<lparr>clock_reads := 59\<rparr>) = replicate 2 False"
    using rate_limit_window [where K = 0 and clk = clock0
        and w = "world0\<lparr>clock_reads := 59\<rparr>" and lastT = 0 and request = "''x''" and cur = 0
        and n = 2] h5
    by blast
  have c5: "preProcess_calls clock0 2 (RateLimitingInterceptor 0 0 0) ''x''
              (world0\<lparr>clock_reads := 59\<rparr>) = [False, False]"
    using t5 by (simp add: numeral_2_eq_2)
  show ?thesis using c1 c2 c3 c4 c5 by (simp add: clock0_def)
qed

text \<open>
  The claim as stated, for every limit: with the limit 0, a call made 60 seconds after
  the last reset sets the counter to zero and returns false.
\<close>

theorem rate_limit_zero_counterexample:
  "preProcess clock0 (RateLimitingInterceptor 0 0 0) ''x'' (world0\<lparr>clock_reads := 60\<rparr>)
     = (False, ''x'', RateLimitingInterceptor 0 0 60000000000, world0\<lparr>clock_reads := 61\<rparr>)"
  by (simp add: steady_clock_now_def RateLimitingInterceptor_preProcess_def to_seconds_def
        clock0_def)


section \<open>Authentication\<close>

lemma has_token_at_Suc: "has_token_at (c # cs) (Suc p) = has_token_at cs p"
proof -
  have "drop (Suc p + 6) (c # cs) = drop (p + 6) cs" by (simp only: add_Suc drop_Suc_Cons)
  then show ?thesis by (simp only: has_token_at_def drop_Suc_Cons)
qed

lemma token_at_Suc: "token_at (c # cs) (Suc p) t = token_at cs p t"
proof -
  have "drop (Suc p + 6) (c # cs) = drop (p + 6) cs" by (simp only: add_Suc drop_Suc_Cons)
  then show ?thesis by (simp only: token_at_def has_token_at_Suc)
qed

lemma has_token_at_0:
  "has_token_at s 0 \<longleftrightarrow>
     starts_with ''TOKEN:'' s \<and> takeWhile (\<lambda>x. \<not> is_space x) (drop 6 s) \<noteq> []"
  by (simp add: has_token_at_def)

lemma regex_search_token_Cons:
  "regex_search_token (c # cs)
     = (if has_token_at (c # cs) 0
        then Some (takeWhile (\<lambda>x. \<not> is_space x) (drop 6 (c # cs)))
        else regex_search_token cs)"
  by (simp only: regex_search_token.simps has_token_at_0)

lemma regex_search_first_token:
  "token_at request p t \<Longrightarrow> \<forall>q<p. \<not> has_token_at request q
     \<Longrightarrow> regex_search_token request = Some t"
proof (induction request arbitrary: p)
  case Nil
  then show ?case by (simp add: token_at_def has_token_at_def starts_with_def)
next
  case (Cons c cs)
  show ?case
  proof (cases "has_token_at (c # cs) 0")
    case True
    then have p0: "p = 0" using Cons.prems(2) by (cases p) auto
    have "t = takeWhile (\<lambda>x. \<not> is_space x) (drop (0 + 6) (c # cs))"
      using Cons.prems(1) p0 by (simp only: token_at_def)
    then have t: "t = takeWhile (\<lambda>x. \<not> is_space x) (drop 6 (c # cs))" by simp
    show ?thesis using True t by (simp only: regex_search_token_Cons if_True)
  next
    case False
    then obtain p' where p: "p = Suc p'"
      using Cons.prems(1) by (cases p) (auto simp: token_at_def)
    have a: "token_at cs p' t" using Cons.prems(1) p token_at_Suc by simp
    have b: "\<forall>q<p'. \<not> has_token_at cs q"
    proof (intro allI impI)
      fix q assume "q < p'"
      then have "\<not> has_token_at (c # cs) (Suc q)" using Cons.prems(2) p by simp
      then show "\<not> has_token_at cs q" using has_token_at_Suc by simp
    qed
    have "regex_search_token cs = Some t" by (rule Cons.IH [OF a b])
    then show ?thesis using False by (simp only: regex_search_token_Cons if_False)
  qed
qed

lemma starts_with_token:
  "starts_with ''TOKEN:'' s \<Longrightarrow> t = takeWhile P (drop 6 s) \<Longrightarrow> starts_with (''TOKEN:'' @ t) s"
proof -
  assume a: "starts_with ''TOKEN:'' s" and t: "t = takeWhile P (drop 6 s)"
  have l6: "length ''TOKEN:'' = 6" by simp
  have "take (6 + length t) s = take 6 s @ take (length t) (drop 6 s)" by (rule take_add)
  moreover have "take (length t) (drop 6 s) = t"
    using t takeWhile_eq_take [of P "drop 6 s"] by simp
  moreover have "take 6 s = ''TOKEN:''" using a unfolding starts_with_def l6 .
  moreover have "length (''TOKEN:'' @ t) = 6 + length t" by simp
  ultimately show ?thesis unfolding starts_with_def by (simp only:)
qed

lemma regex_token_is_substring:
  "regex_search_token request = Some t \<Longrightarrow> str_find request (''TOKEN:'' @ t) \<noteq> None"
proof (induction request)
  case Nil
  then show ?case by simp
next
  case (Cons c cs)
  show ?case
  proof (cases "has_token_at (c # cs) 0")
    case True
    then have "Some (takeWhile (\<lambda>x. \<not> is_space x) (drop 6 (c # cs))) = Some t"
      using Cons.prems by (simp only: regex_search_token_Cons if_True)
    then have "t = takeWhile (\<lambda>x. \<not> is_space x) (drop 6 (c # cs))" by simp
    moreover have "starts_with ''TOKEN:'' (c # cs)" using True by (simp only: has_token_at_0)
    ultimately have "starts_with (''TOKEN:'' @ t) (c # cs)" using starts_with_token by blast
    then show ?thesis by simp
  next
    case False
    then have "regex_search_token cs = Some t"
      using Cons.prems by (simp only: regex_search_token_Cons if_False)
    then have "str_find cs (''TOKEN:'' @ t) \<noteq> None" by (rule Cons.IH)
    then show ?thesis by auto
  qed
qed

lemma authentication_rejects:
  "str_find request (''TOKEN:'' @ secret) = None
     \<Longrightarrow> AuthenticationInterceptor_preProcess secret request = (False, request)"
  using regex_token_is_substring [of request secret]
  by (auto simp: AuthenticationInterceptor_preProcess_def split: option.splits)

lemma rejected_by_member:
  "AuthenticationInterceptor secret \<in> set is
     \<Longrightarrow> AuthenticationInterceptor_preProcess secret request = (False, request)
     \<Longrightarrow> \<exists>r is' w' tr. run_preProcess clk k is request w = (False, r, is', w', tr)"
proof (induction "is" arbitrary: k w)
  case Nil
  then show ?case by simp
next
  case (Cons i "is")
  obtain ok r1 i1 w1 where p: "preProcess clk i request w = (ok, r1, i1, w1)"
    by (metis prod_cases4)
  have r1: "r1 = request" by (rule preProcess_request [OF p])
  show ?case
  proof (cases ok)
    case False
    then show ?thesis using p by simp
  next
    case True
    then have "i \<noteq> AuthenticationInterceptor secret" using p Cons.prems(2) by auto
    then have "AuthenticationInterceptor secret \<in> set is" using Cons.prems(1) by simp
    from Cons.IH [OF this Cons.prems(2), of "Suc k" w1]
    obtain r is' w' tr where "run_preProcess clk (Suc k) is request w1 = (False, r, is', w', tr)"
      by blast
    then show ?thesis using p True r1 by simp
  qed
qed

lemma regex_search_token_occurrence:
  "regex_search_token request = Some t
     \<Longrightarrow> \<exists>p. token_at request p t \<and> (\<forall>q<p. \<not> has_token_at request q)"
proof (induction request)
  case Nil
  then show ?case by simp
next
  case (Cons c cs)
  show ?case
  proof (cases "has_token_at (c # cs) 0")
    case True
    then have "Some (takeWhile (\<lambda>x. \<not> is_space x) (drop 6 (c # cs))) = Some t"
      using Cons.prems by (simp only: regex_search_token_Cons if_True)
    then have "t = takeWhile (\<lambda>x. \<not> is_space x) (drop (0 + 6) (c # cs))" by simp
    then have "token_at (c # cs) 0 t" using True by (simp only: token_at_def simp_thms)
    then show ?thesis by auto
  next
    case False
    then have "regex_search_token cs = Some t"
      using Cons.prems by (simp only: regex_search_token_Cons if_False)
    from Cons.IH [OF this] obtain p
      where p: "token_at cs p t" "\<forall>q<p. \<not> has_token_at cs q" by blast
    have a: "token_at (c # cs) (Suc p) t" using p(1) by (simp only: token_at_Suc)
    have b: "\<forall>q<Suc p. \<not> has_token_at (c # cs) q"
    proof (intro allI impI)
      fix q assume q: "q < Suc p"
      show "\<not> has_token_at (c # cs) q"
      proof (cases q)
        case 0
        then show ?thesis using False by simp
      next
        case (Suc q')
        then have "q' < p" using q by simp
        then have "\<not> has_token_at cs q'" using p(2) by blast
        then show ?thesis using Suc has_token_at_Suc by simp
      qed
    qed
    show ?thesis using a b by blast
  qed
qed

lemma authentication_accepts_iff:
  "fst (AuthenticationInterceptor_preProcess secret request)
     \<longleftrightarrow> (\<exists>p. token_at request p secret \<and> (\<forall>q<p. \<not> has_token_at request q))"
proof
  assume "fst (AuthenticationInterceptor_preProcess secret request)"
  then have "regex_search_token request = Some secret"
    by (auto simp: AuthenticationInterceptor_preProcess_def split: option.splits if_splits)
  then show "\<exists>p. token_at request p secret \<and> (\<forall>q<p. \<not> has_token_at request q)"
    by (rule regex_search_token_occurrence)
next
  assume "\<exists>p. token_at request p secret \<and> (\<forall>q<p. \<not> has_token_at request q)"
  then have "regex_search_token request = Some secret"
    using regex_search_first_token by blast
  then show "fst (AuthenticationInterceptor_preProcess secret request)"
    by (simp add: AuthenticationInterceptor_preProcess_def)
qed

lemma authentication_rejects_either:
  "str_find request (''TOKEN:'' @ secret) = None \<or> (\<forall>p. \<not> token_at request p secret)
     \<Longrightarrow> AuthenticationInterceptor_preProcess secret request = (False, request)"
proof (elim disjE)
  assume "str_find request (''TOKEN:'' @ secret) = None"
  then show ?thesis by (rule authentication_rejects)
next
  assume "\<forall>p. \<not> token_at request p secret"
  then have "\<not> fst (AuthenticationInterceptor_preProcess secret request)"
    using authentication_accepts_iff by blast
  then show ?thesis
    by (auto simp: AuthenticationInterceptor_preProcess_def split: option.splits if_splits)
qed

text \<open>
  C5. A request that does not contain \<open>TOKEN:\<close> followed by the configured secret, or
  that has no token occurrence with the secret as its token, is rejected by the
  authentication interceptor, and a pipeline whose interceptors include it returns the
  rejection response after \<open>preProcess\<close> calls only, no service being called. A request
  whose first token occurrence (the first place where \<open>TOKEN:\<close> is followed by a token,
  a non-empty run of characters up to the next white space) has the secret as its token
  is accepted by the authentication interceptor.
\<close>

theorem authentication_checks_token:
  "(str_find request (''TOKEN:'' @ secret) = None \<or> (\<forall>p. \<not> token_at request p secret) \<longrightarrow>
      preProcess clk (AuthenticationInterceptor secret) request w
        = (False, request, AuthenticationInterceptor secret, w)
      \<and> (AuthenticationInterceptor secret \<in> set (interceptors srv) \<longrightarrow>
           (\<exists>is1 w1 n. processRequest D clk srv request w
              = Inr (''ERROR: Request rejected by interceptor'', srv\<lparr>interceptors := is1\<rparr>, w1,
                     map pre_call [0..<Suc n]))))
   \<and> (token_at request p secret \<and> (\<forall>q<p. \<not> has_token_at request q) \<longrightarrow>
        preProcess clk (AuthenticationInterceptor secret) request w
          = (True, request, AuthenticationInterceptor secret, w))"
proof (intro conjI impI)
  assume a: "str_find request (''TOKEN:'' @ secret) = None \<or> (\<forall>p. \<not> token_at request p secret)"
  show "preProcess clk (AuthenticationInterceptor secret) request w
        = (False, request, AuthenticationInterceptor secret, w)"
    using authentication_rejects_either [OF a] by simp
next
  assume a: "str_find request (''TOKEN:'' @ secret) = None \<or> (\<forall>p. \<not> token_at request p secret)"
    and m: "AuthenticationInterceptor secret \<in> set (interceptors srv)"
  from rejected_by_member [OF m authentication_rejects_either [OF a], of clk 0 w]
  obtain r is1 w1 tr
    where pre: "run_preProcess clk 0 (interceptors srv) request w = (False, r, is1, w1, tr)"
    by blast
  from processRequest_rejected [OF pre, of D]
  show "\<exists>is1 w1 n. processRequest D clk srv request w
              = Inr (''ERROR: Request rejected by interceptor'', srv\<lparr>interceptors := is1\<rparr>, w1,
                     map pre_call [0..<Suc n])"
    by blast
next
  assume "token_at request p secret \<and> (\<forall>q<p. \<not> has_token_at request q)"
  then have "regex_search_token request = Some secret"
    using regex_search_first_token by blast
  then show "preProcess clk (AuthenticationInterceptor secret) request w
          = (True, request, AuthenticationInterceptor secret, w)"
    by (simp add: AuthenticationInterceptor_preProcess_def)
qed

theorem authentication_checks_token_witness:
  "str_find ''TOKEN:wrong ECHO Hi'' (''TOKEN:'' @ ''secret123'') = None
   \<and> preProcess clock0 (AuthenticationInterceptor ''secret123'') ''TOKEN:wrong ECHO Hi'' world0
       = (False, ''TOKEN:wrong ECHO Hi'', AuthenticationInterceptor ''secret123'', world0)
   \<and> AuthenticationInterceptor ''secret123'' \<in> set (interceptors hft_server)
   \<and> (\<exists>is1 w1 n. processRequest example_ops clock0 hft_server ''TOKEN:wrong ECHO Hi'' world0
         = Inr (''ERROR: Request rejected by interceptor'', hft_server\<lparr>interceptors := is1\<rparr>, w1,
                map pre_call [0..<Suc n]))
   \<and> token_at ''TOKEN: TOKEN:secret123 ECHO Hi'' 7 ''secret123''
   \<and> list_all (\<lambda>q. \<not> has_token_at ''TOKEN: TOKEN:secret123 ECHO Hi'' q) [0..<7]
   \<and> preProcess clock0 (AuthenticationInterceptor ''secret123'') ''TOKEN: TOKEN:secret123 ECHO Hi''
         world0
       = (True, ''TOKEN: TOKEN:secret123 ECHO Hi'', AuthenticationInterceptor ''secret123'', world0)"
proof -
  let ?bad = "''TOKEN:wrong ECHO Hi''"
  let ?good = "''TOKEN: TOKEN:secret123 ECHO Hi''"
  have a: "str_find ?bad (''TOKEN:'' @ ''secret123'') = None" by code_simp
  have m: "AuthenticationInterceptor ''secret123'' \<in> set (interceptors hft_server)"
    by (simp add: hft_server_def)
  have t: "token_at ?good 7 ''secret123''" by code_simp
  have l: "list_all (\<lambda>q. \<not> has_token_at ?good q) [0..<7]" by code_simp
  then have n: "\<forall>q<7. \<not> has_token_at ?good q" by (simp add: list_all_iff)
  note inst = authentication_checks_token [where secret = "''secret123''" and clk = clock0
      and w = world0 and srv = hft_server and D = example_ops]
  have c1: "preProcess clock0 (AuthenticationInterceptor ''secret123'') ?bad world0
       = (False, ?bad, AuthenticationInterceptor ''secret123'', world0)"
    using inst [where request = ?bad] a by blast
  have c2: "\<exists>is1 w1 n. processRequest example_ops clock0 hft_server ?bad world0
         = Inr (''ERROR: Request rejected by interceptor'', hft_server\<lparr>interceptors := is1\<rparr>, w1,
                map pre_call [0..<Suc n])"
    using inst [where request = ?bad] a m by blast
  have c3: "preProcess clock0 (AuthenticationInterceptor ''secret123'') ?good world0
       = (True, ?good, AuthenticationInterceptor ''secret123'', world0)"
    using inst [where request = ?good and p = 7] t n by blast
  show ?thesis using a c1 m c2 t l c3 by blast
qed


section \<open>The echo service behind the authentication interceptor\<close>

lemma starts_with_ECHO_space:
  "\<not> starts_with ''ECHO'' s \<Longrightarrow> \<not> starts_with ''ECHO'' (s @ CHR '' '' # r)"
proof (cases s)
  case Nil
  then show ?thesis by (simp add: starts_with_def)
next
  case s1: (Cons a s1)
  assume n: "\<not> starts_with ''ECHO'' s"
  show ?thesis
  proof (cases s1)
    case Nil
    then show ?thesis using s1 by (simp add: starts_with_def)
  next
    case s2: (Cons b s2)
    show ?thesis
    proof (cases s2)
      case Nil
      then show ?thesis using s1 s2 by (simp add: starts_with_def)
    next
      case s3: (Cons c s3)
      show ?thesis
      proof (cases s3)
        case Nil
        then show ?thesis using s1 s2 s3 by (simp add: starts_with_def)
      next
        case (Cons d s4)
        then show ?thesis using n s1 s2 s3 by (simp add: starts_with_def)
      qed
    qed
  qed
qed

lemma str_find_echo_after:
  "str_find secret ''ECHO'' = None
     \<Longrightarrow> str_find (secret @ '' ECHO '' @ x) ''ECHO'' = Some (Suc (length secret))"
proof (induction secret)
  case Nil
  show ?case by (simp add: starts_with_def)
next
  case (Cons c cs)
  have n: "\<not> starts_with ''ECHO'' (c # cs)" and r: "str_find cs ''ECHO'' = None"
    using Cons.prems by (auto split: if_splits)
  have "\<not> starts_with ''ECHO'' ((c # cs) @ CHR '' '' # (''ECHO '' @ x))"
    by (rule starts_with_ECHO_space [OF n])
  then have "\<not> starts_with ''ECHO'' (c # (cs @ '' ECHO '' @ x))" by simp
  then have "str_find (c # (cs @ '' ECHO '' @ x)) ''ECHO''
               = map_option Suc (str_find (cs @ '' ECHO '' @ x) ''ECHO'')"
    by (simp only: str_find.simps if_False)
  then show ?case using Cons.IH [OF r] by simp
qed

lemma str_find_echo_request:
  "str_find secret ''ECHO'' = None
     \<Longrightarrow> str_find (''TOKEN:'' @ secret @ '' ECHO '' @ x) ''ECHO'' = Some (length secret + 7)"
  using str_find_echo_after [of secret x] by (simp add: starts_with_def)

lemma regex_search_token_request:
  "secret \<noteq> [] \<Longrightarrow> \<forall>c\<in>set secret. \<not> is_space c
     \<Longrightarrow> regex_search_token (''TOKEN:'' @ secret @ '' ECHO '' @ x) = Some secret"
proof -
  assume ne: "secret \<noteq> []" and ns: "\<forall>c\<in>set secret. \<not> is_space c"
  have "takeWhile (\<lambda>x. \<not> is_space x) (secret @ CHR '' '' # (''ECHO '' @ x)) = secret"
    using ns by (simp add: is_space_def)
  then show ?thesis using ne by (simp add: starts_with_def)
qed

text \<open>
  C9 (amended). Let the configured secret be not empty, contain no white space and not
  contain \<open>ECHO\<close>, and let the pipeline be the authentication interceptor before a list
  of services that starts with the echo service. Then for every string \<open>x\<close> the request
  \<open>TOKEN:<secret> ECHO x\<close> gives exactly the response \<open>ECHO: x\<close>; the server and the world
  are left as they were, so that the same request again gives the same response.
\<close>

theorem echo_returns_text:
  assumes "secret \<noteq> []" and "\<forall>c\<in>set secret. \<not> is_space c"
    and "str_find secret ''ECHO'' = None"
    and "srv = \<lparr>services = EchoService # ss, interceptors = [AuthenticationInterceptor secret]\<rparr>"
    and "request = ''TOKEN:'' @ secret @ '' ECHO '' @ x"
  shows "processRequest D clk srv request w
           = Inr (''ECHO: '' @ x, srv, w, [pre_call 0, handler_call 0 request, post_call 0])"
proof -
  have auth: "AuthenticationInterceptor_preProcess secret request = (True, request)"
    using regex_search_token_request [OF assms(1) assms(2), of x] assms(5)
    by (simp add: AuthenticationInterceptor_preProcess_def)
  have pos: "str_find request ''ECHO'' = Some (length secret + 7)"
    using str_find_echo_request [OF assms(3), of x] assms(5) by simp
  define pre where "pre = ''TOKEN:'' @ secret @ '' ECHO ''"
  have rq: "request = pre @ x" using assms(5) by (simp add: pre_def)
  have len: "length pre = length secret + 7 + 5" by (simp add: pre_def)
  have "substr (pre @ x) (length pre) = Inr x" by (simp add: substr_def)
  then have "substr request (length secret + 7 + 5) = Inr x" by (simp only: rq len)
  then have echo: "EchoService_processRequest request = Inr (''ECHO: '' @ x)"
    using pos by (simp add: EchoService_processRequest_def)
  show ?thesis
    using auth echo assms(4) by (simp add: processRequest_def)
qed

theorem echo_returns_text_witness:
  "''secret123'' \<noteq> [] \<and> list_all (\<lambda>c. \<not> is_space c) ''secret123''
   \<and> str_find ''secret123'' ''ECHO'' = None
   \<and> processRequest example_ops clock0 hft_server ''TOKEN:secret123 ECHO Hello World'' world0
       = Inr (''ECHO: Hello World'', hft_server, world0,
              [pre_call 0, handler_call 0 ''TOKEN:secret123 ECHO Hello World'', post_call 0])"
proof -
  have a: "''secret123'' \<noteq> []" by simp
  have b: "list_all (\<lambda>c. \<not> is_space c) ''secret123''" by code_simp
  then have b': "\<forall>c\<in>set ''secret123''. \<not> is_space c" by (simp only: list_all_iff)
  have c: "str_find ''secret123'' ''ECHO'' = None" by code_simp
  have "processRequest example_ops clock0 hft_server
          (''TOKEN:'' @ ''secret123'' @ '' ECHO '' @ ''Hello World'') world0
       = Inr (''ECHO: '' @ ''Hello World'', hft_server, world0,
              [pre_call 0,
               handler_call 0 (''TOKEN:'' @ ''secret123'' @ '' ECHO '' @ ''Hello World''),
               post_call 0])"
    by (rule echo_returns_text [OF a b' c]) (simp_all add: hft_server_def)
  then show ?thesis using a b c by simp
qed

text \<open>
  The claim as stated, for every secret: with the secret \<open>ECHO\<close> the echo service finds
  the keyword inside the token, and the response to \<open>TOKEN:ECHO ECHO hi\<close> is
  \<open>ECHO: ECHO hi\<close>, not \<open>ECHO: hi\<close>.
\<close>

theorem echo_keyword_in_secret_counterexample:
  "processRequest example_ops clock0
     \<lparr>services = [EchoService, CalculatorService, FileService],
        interceptors = [AuthenticationInterceptor ''ECHO'']\<rparr>
     ''TOKEN:ECHO ECHO hi'' world0
   = Inr (''ECHO: ECHO hi'',
          \<lparr>services = [EchoService, CalculatorService, FileService],
             interceptors = [AuthenticationInterceptor ''ECHO'']\<rparr>,
          world0, [pre_call 0, handler_call 0 ''TOKEN:ECHO ECHO hi'', post_call 0])"
  by (simp add: processRequest_def AuthenticationInterceptor_preProcess_def
        EchoService_processRequest_def substr_def starts_with_def is_space_def)


section \<open>Errors inside the services\<close>

lemma eval_loop_exn:
  "eval_loop D result s = Inl e
     \<Longrightarrow> e = runtime_error ''Division by zero''
         \<or> (\<exists>op. e = runtime_error (''Unknown operator: '' @ [op]))"
proof (induction D result s rule: eval_loop.induct)
  case (1 D result s)
  show ?case
  proof (cases "extract_char s")
    case None
    then show ?thesis using "1.prems" by (subst (asm) eval_loop.simps) simp
  next
    case (Some a)
    obtain op s1 where a: "a = (op, s1)" by (cases a)
    show ?thesis
    proof (cases "extract_double D s1")
      case (Ok v s2)
      have step: "eval_loop D result s =
               (if op = CHR ''+'' then eval_loop D v s2
                else if op = CHR ''-'' then eval_loop D (dneg D v) s2
                else if op = CHR ''*'' then eval_loop D v s2
                else if op = CHR ''/'' then
                  (if dis_zero D v then Inl (runtime_error ''Division by zero'')
                   else eval_loop D v s2)
                else Inl (runtime_error (''Unknown operator: '' @ [op])))"
        using Some a Ok by (subst eval_loop.simps) simp
      show ?thesis
        using "1.prems" "1.IH" [OF Some a [symmetric] Ok] unfolding step
        by (auto split: if_splits)
    next
      case (Fail v)
      then show ?thesis using "1.prems" Some a by (subst (asm) eval_loop.simps) simp
    next
      case Eof
      then show ?thesis using "1.prems" Some a by (subst (asm) eval_loop.simps) simp
    qed
  qed
qed

lemma evaluateExpression_exn:
  "evaluateExpression D expression = Inl e
     \<Longrightarrow> e = uninitialized_read
         \<or> e = runtime_error ''Division by zero''
         \<or> (\<exists>op. e = runtime_error (''Unknown operator: '' @ [op]))"
  by (cases "extract_double D expression")
     (auto simp: evaluateExpression_def dest: eval_loop_exn)

text \<open>
  What the services do with the errors they meet, for a request with at least one
  character after the keyword: an exception of \<open>evaluateExpression\<close> becomes the response
  \<open>ERROR:\<close> with its message; an operand that is no number becomes the number the
  library stored; a file that cannot be opened becomes a response that begins with
  \<open>FILE_CONTENT:\<close>.
\<close>

lemma calculator_exception_caught:
  "str_find request ''CAL'' = Some calPos \<Longrightarrow> calPos + 4 \<le> length request
     \<Longrightarrow> evaluateExpression D (drop (calPos + 4) request) = Inl (runtime_error m)
     \<Longrightarrow> CalculatorService_processRequest D request = Inr (''ERROR: '' @ m)"
  by (simp add: CalculatorService_processRequest_def substr_def)

lemma calculator_failed_operand:
  "str_find request ''CAL'' = Some calPos \<Longrightarrow> calPos + 4 \<le> length request
     \<Longrightarrow> extract_double D (drop (calPos + 4) request) = Fail v
     \<Longrightarrow> CalculatorService_processRequest D request = Inr (''RESULT: '' @ to_string D v)"
  by (simp add: CalculatorService_processRequest_def substr_def evaluateExpression_def)

lemma read_missing_file:
  "str_find request ''READ'' = Some readPos \<Longrightarrow> readPos + 5 \<le> length request
     \<Longrightarrow> files fs (drop (readPos + 5) request) = None
     \<Longrightarrow> FileService_processRequest request fs
           = Inr (''FILE_CONTENT: ERROR: Could not open file '' @ drop (readPos + 5) request, fs)"
  by (simp add: FileService_processRequest_def readFile_def substr_def)

text \<open>
  C3. The claim: when the processing of a request fails inside a handler (a malformed
  expression, a missing file, a request that ends at the command keyword), the handler
  returns normally and the pipeline's response begins with \<open>ERROR:\<close>. The code, with the
  server of the HFT entry point: for a request that ends at \<open>ECHO\<close>, \<open>CAL\<close> or \<open>READ\<close>,
  \<open>substr\<close> is called with a position beyond the end of the request, and its
  \<open>std::out_of_range\<close> leaves the handler and the pipeline (in the calculator the call
  stands one line before the \<open>try\<close>); for a \<open>READ\<close> of a missing file the response
  begins with \<open>FILE_CONTENT:\<close>; for \<open>CAL abc\<close> the response is a \<open>RESULT:\<close>.
\<close>

theorem request_ending_at_keyword:
  "EchoService_processRequest ''TOKEN:secret123 ECHO'' = Inl out_of_range
   \<and> processRequest D clk hft_server ''TOKEN:secret123 ECHO'' w = Inl out_of_range
   \<and> CalculatorService_processRequest D ''TOKEN:secret123 CAL'' = Inl out_of_range
   \<and> processRequest D clk hft_server ''TOKEN:secret123 CAL'' w = Inl out_of_range
   \<and> FileService_processRequest ''TOKEN:secret123 READ'' fs = Inl out_of_range
   \<and> processRequest D clk hft_server ''TOKEN:secret123 READ'' w = Inl out_of_range
   \<and> processRequest D clk hft_server ''TOKEN:secret123 READ nofile.txt'' world0
       = Inr (''FILE_CONTENT: ERROR: Could not open file nofile.txt'', hft_server, world0,
              [pre_call 0, handler_call 0 ''TOKEN:secret123 READ nofile.txt'',
               handler_call 1 ''TOKEN:secret123 READ nofile.txt'',
               handler_call 2 ''TOKEN:secret123 READ nofile.txt'', post_call 0])
   \<and> \<not> starts_with ''ERROR:'' ''FILE_CONTENT: ERROR: Could not open file nofile.txt''
   \<and> processRequest example_ops clk hft_server ''TOKEN:secret123 CAL abc'' w
       = Inr (''RESULT: 0'', hft_server, w,
              [pre_call 0, handler_call 0 ''TOKEN:secret123 CAL abc'',
               handler_call 1 ''TOKEN:secret123 CAL abc'', post_call 0])"
proof (intro conjI)
  show "EchoService_processRequest ''TOKEN:secret123 ECHO'' = Inl out_of_range"
    by (simp add: EchoService_processRequest_def substr_def starts_with_def)
  show "processRequest D clk hft_server ''TOKEN:secret123 ECHO'' w = Inl out_of_range"
    by (simp add: processRequest_def hft_server_def
          AuthenticationInterceptor_preProcess_def EchoService_processRequest_def
          substr_def starts_with_def is_space_def)
  show "CalculatorService_processRequest D ''TOKEN:secret123 CAL'' = Inl out_of_range"
    by (simp add: CalculatorService_processRequest_def substr_def starts_with_def)
  show "processRequest D clk hft_server ''TOKEN:secret123 CAL'' w = Inl out_of_range"
    by (simp add: processRequest_def hft_server_def
          AuthenticationInterceptor_preProcess_def EchoService_processRequest_def
          CalculatorService_processRequest_def substr_def starts_with_def is_space_def)
  show "FileService_processRequest ''TOKEN:secret123 READ'' fs = Inl out_of_range"
    by (simp add: FileService_processRequest_def substr_def starts_with_def)
  show "processRequest D clk hft_server ''TOKEN:secret123 READ'' w = Inl out_of_range"
    by (simp add: processRequest_def hft_server_def
          AuthenticationInterceptor_preProcess_def EchoService_processRequest_def
          CalculatorService_processRequest_def FileService_processRequest_def
          substr_def starts_with_def is_space_def)
  show "processRequest D clk hft_server ''TOKEN:secret123 READ nofile.txt'' world0
       = Inr (''FILE_CONTENT: ERROR: Could not open file nofile.txt'', hft_server, world0,
              [pre_call 0, handler_call 0 ''TOKEN:secret123 READ nofile.txt'',
               handler_call 1 ''TOKEN:secret123 READ nofile.txt'',
               handler_call 2 ''TOKEN:secret123 READ nofile.txt'', post_call 0])"
    by (simp add: processRequest_def hft_server_def world0_def
          AuthenticationInterceptor_preProcess_def EchoService_processRequest_def
          CalculatorService_processRequest_def FileService_processRequest_def readFile_def
          substr_def starts_with_def is_space_def)
  show "\<not> starts_with ''ERROR:'' ''FILE_CONTENT: ERROR: Could not open file nofile.txt''"
    by (simp add: starts_with_def)
  have "CalculatorService_processRequest example_ops ''TOKEN:secret123 CAL abc''
          = Inr ''RESULT: 0''"
    by code_simp
  then show "processRequest example_ops clk hft_server ''TOKEN:secret123 CAL abc'' w
       = Inr (''RESULT: 0'', hft_server, w,
              [pre_call 0, handler_call 0 ''TOKEN:secret123 CAL abc'',
               handler_call 1 ''TOKEN:secret123 CAL abc'', post_call 0])"
    by (simp add: processRequest_def hft_server_def
          AuthenticationInterceptor_preProcess_def EchoService_processRequest_def
          substr_def starts_with_def is_space_def)
qed

section \<open>The order of the interceptors\<close>

subsection \<open>Insertion sort\<close>

lemma unguarded_linear_insert_loop_correct:
  fixes f :: "'a \<Rightarrow> 'k::linorder"
  assumes "\<exists>x\<in>set P. f x \<le> f val"
  shows "\<exists>P1 P2. P = P1 @ P2 \<and> P1 \<noteq> [] \<and> f (last P1) \<le> f val \<and> (\<forall>x\<in>set P2. f val < f x)
           \<and> unguarded_linear_insert_loop (\<lambda>a b. f a < f b) (P @ v # S) val (length P)
               = Some (P1 @ val # P2 @ S)"
  using assms
proof (induction P arbitrary: v S rule: rev_induct)
  case Nil
  then show ?case by simp
next
  case (snoc y Q)
  show ?case
  proof (cases "f val < f y")
    case True
    with snoc.prems have "\<exists>x\<in>set Q. f x \<le> f val" by auto
    from snoc.IH [OF this, of y "y # S"] obtain P1 P2 where
      q: "Q = P1 @ P2" and ne: "P1 \<noteq> []" and le: "f (last P1) \<le> f val"
      and gt: "\<forall>x\<in>set P2. f val < f x"
      and run: "unguarded_linear_insert_loop (\<lambda>a b. f a < f b) (Q @ y # y # S) val (length Q)
                  = Some (P1 @ val # P2 @ y # S)"
      by blast
    have upd: "((Q @ [y]) @ v # S)[Suc (length Q) := y] = Q @ y # y # S"
      by (simp add: list_update_append)
    have nth: "((Q @ [y]) @ v # S) ! length Q = y"
      by (simp add: nth_append)
    have "unguarded_linear_insert_loop (\<lambda>a b. f a < f b) ((Q @ [y]) @ v # S) val (length (Q @ [y]))
            = Some (P1 @ val # (P2 @ [y]) @ S)"
      using True run upd nth by simp
    moreover have "Q @ [y] = P1 @ (P2 @ [y])" using q by simp
    moreover have "\<forall>x\<in>set (P2 @ [y]). f val < f x" using gt True by simp
    ultimately show ?thesis using ne le by blast
  next
    case False
    have upd: "((Q @ [y]) @ v # S)[Suc (length Q) := val] = (Q @ [y]) @ val # S"
      by (simp add: list_update_append)
    have nth: "((Q @ [y]) @ v # S) ! length Q = y"
      by (simp add: nth_append)
    have "unguarded_linear_insert_loop (\<lambda>a b. f a < f b) ((Q @ [y]) @ v # S) val (length (Q @ [y]))
            = Some ((Q @ [y]) @ val # [] @ S)"
      using False upd nth by simp
    moreover have "f (last (Q @ [y])) \<le> f val" using False by simp
    ultimately show ?thesis by (intro exI [of _ "Q @ [y]"] exI [of _ "[]"]) simp
  qed
qed

text \<open>One insertion into a sorted prefix: the new element goes behind every element that is not
  greater, so that the prefix stays sorted and equal keys keep their order.\<close>

lemma sorted_insert_behind:
  fixes f :: "'a \<Rightarrow> 'k::linorder"
  assumes "sorted (map f (P1 @ P2))" "P1 \<noteq> []" "f (last P1) \<le> f val" "\<forall>x\<in>set P2. f val < f x"
  shows "sorted (map f (P1 @ val # P2))"
    and "filter (\<lambda>x. f x = k) (P1 @ val # P2) = filter (\<lambda>x. f x = k) ((P1 @ P2) @ [val])"
proof -
  have le: "\<forall>x\<in>set P1. f x \<le> f val"
  proof
    fix x assume "x \<in> set P1"
    obtain B l where b: "P1 = B @ [l]"
      using assms(2) by (metis append_butlast_last_id)
    have "sorted (map f (B @ [l]))" using assms(1) b by (simp add: sorted_append)
    then have "\<forall>y\<in>set B. f y \<le> f l" by (simp add: sorted_append)
    with \<open>x \<in> set P1\<close> b have "f x \<le> f (last P1)" by auto
    then show "f x \<le> f val" using assms(3) by simp
  qed
  show "sorted (map f (P1 @ val # P2))"
    using assms(1,4) le by (auto simp: sorted_append intro: less_imp_le)
  show "filter (\<lambda>x. f x = k) (P1 @ val # P2) = filter (\<lambda>x. f x = k) ((P1 @ P2) @ [val])"
  proof (cases "k = f val")
    case True
    then have "filter (\<lambda>x. f x = k) P2 = []" using assms(4) by (auto simp: filter_empty_conv)
    then show ?thesis by simp
  next
    case False
    then show ?thesis by simp
  qed
qed


lemma sorted_insert_front:
  fixes f :: "'a \<Rightarrow> 'k::linorder"
  assumes "sorted (map f P)" "P \<noteq> []" "f val < f (P ! 0)"
  shows "sorted (map f (val # P))"
    and "filter (\<lambda>x. f x = k) (val # P) = filter (\<lambda>x. f x = k) (P @ [val])"
proof -
  obtain p P' where p: "P = p # P'" using assms(2) by (cases P) auto
  have gt: "\<forall>x\<in>set P. f val < f x"
    using assms(1,3) p by auto
  show "sorted (map f (val # P))"
    using assms(1) gt by (auto intro: less_imp_le)
  show "filter (\<lambda>x. f x = k) (val # P) = filter (\<lambda>x. f x = k) (P @ [val])"
  proof (cases "k = f val")
    case True
    then have "filter (\<lambda>x. f x = k) P = []" using gt by (auto simp: filter_empty_conv)
    then show ?thesis by simp
  next
    case False
    then show ?thesis by simp
  qed
qed

lemma insertion_sort_loop_correct:
  fixes f :: "'a \<Rightarrow> 'k::linorder"
  assumes "P \<noteq> []" "sorted (map f P)" "m \<le> length R"
  shows "\<exists>S. insertion_sort_loop (\<lambda>a b. f a < f b) (P @ R) 0 (length P) (length P + m)
               = Some (S @ drop m R)
           \<and> sorted (map f S) \<and> length S = length P + m \<and> mset S = mset (P @ take m R)
           \<and> (\<forall>k. filter (\<lambda>x. f x = k) S = filter (\<lambda>x. f x = k) (P @ take m R))"
  using assms
proof (induction m arbitrary: P R)
  case 0
  then show ?case by (simp add: insertion_sort_loop.simps)
next
  case (Suc m)
  then obtain v R' where r: "R = v # R'" by (cases R) auto
  have nth: "(P @ v # R') ! length P = v" by simp
  have nth0: "(P @ v # R') ! 0 = P ! 0" using Suc.prems(1) by (simp add: nth_append)
  have "\<exists>P'. sorted (map f P') \<and> length P' = Suc (length P) \<and> mset P' = mset (P @ [v])
          \<and> (\<forall>k. filter (\<lambda>x. f x = k) P' = filter (\<lambda>x. f x = k) (P @ [v]))
          \<and> insertion_sort_loop (\<lambda>a b. f a < f b) (P @ R) 0 (length P) (length P + Suc m)
              = insertion_sort_loop (\<lambda>a b. f a < f b) (P' @ R') 0 (Suc (length P)) (length P + Suc m)"
  proof (cases "f v < f (P ! 0)")
    case True
    have mv: "move_backward_insert (P @ v # R') 0 (length P) = (v # P) @ R'"
      by (simp add: move_backward_insert_def)
    have "insertion_sort_loop (\<lambda>a b. f a < f b) (P @ R) 0 (length P) (length P + Suc m)
            = insertion_sort_loop (\<lambda>a b. f a < f b) ((v # P) @ R') 0 (Suc (length P)) (length P + Suc m)"
      unfolding r
      by (subst insertion_sort_loop.simps) (simp only: nth nth0 True mv if_True, simp)
    then show ?thesis
      using sorted_insert_front [OF Suc.prems(2) Suc.prems(1) True]
      by (intro exI [of _ "v # P"]) simp
  next
    case False
    have "\<exists>x\<in>set P. f x \<le> f v"
      using False Suc.prems(1) by (intro bexI [of _ "P ! 0"]) (auto simp: not_less)
    from unguarded_linear_insert_loop_correct [OF this, of v R'] obtain P1 P2 where
      q: "P = P1 @ P2" and ne: "P1 \<noteq> []" and le: "f (last P1) \<le> f v"
      and gt: "\<forall>x\<in>set P2. f v < f x"
      and run: "unguarded_linear_insert_loop (\<lambda>a b. f a < f b) (P @ v # R') v (length P)
                  = Some (P1 @ v # P2 @ R')"
      by blast
    have uli: "unguarded_linear_insert (\<lambda>a b. f a < f b) (P @ v # R') (length P)
                 = Some ((P1 @ v # P2) @ R')"
      using run by (simp add: unguarded_linear_insert_def)
    have "insertion_sort_loop (\<lambda>a b. f a < f b) (P @ R) 0 (length P) (length P + Suc m)
            = insertion_sort_loop (\<lambda>a b. f a < f b) ((P1 @ v # P2) @ R') 0 (Suc (length P))
                (length P + Suc m)"
      unfolding r
      by (subst insertion_sort_loop.simps) (simp only: nth nth0 False uli if_False, simp)
    moreover have s: "sorted (map f (P1 @ P2))" using Suc.prems(2) q by simp
    note sorted_insert_behind [OF s ne le gt]
    ultimately show ?thesis
      using q by (intro exI [of _ "P1 @ v # P2"]) simp
  qed
  then obtain P' where p': "sorted (map f P')" "length P' = Suc (length P)"
      "mset P' = mset (P @ [v])"
      "\<forall>k. filter (\<lambda>x. f x = k) P' = filter (\<lambda>x. f x = k) (P @ [v])"
      and step: "insertion_sort_loop (\<lambda>a b. f a < f b) (P @ R) 0 (length P) (length P + Suc m)
              = insertion_sort_loop (\<lambda>a b. f a < f b) (P' @ R') 0 (Suc (length P)) (length P + Suc m)"
    by blast
  have "P' \<noteq> []" using p'(2) by auto
  moreover have "m \<le> length R'" using Suc.prems(3) r by simp
  ultimately obtain S where
      s: "insertion_sort_loop (\<lambda>a b. f a < f b) (P' @ R') 0 (length P') (length P' + m)
            = Some (S @ drop m R')"
         "sorted (map f S)" "length S = length P' + m" "mset S = mset (P' @ take m R')"
         "\<forall>k. filter (\<lambda>x. f x = k) S = filter (\<lambda>x. f x = k) (P' @ take m R')"
    using Suc.IH [OF _ p'(1), of R'] by blast
  show ?case
    using s p' step r by (intro exI [of _ S]) simp
qed

lemma insertion_sort_correct:
  fixes f :: "'a \<Rightarrow> 'k::linorder"
  assumes "n \<le> length xs"
  shows "\<exists>S. insertion_sort (\<lambda>a b. f a < f b) xs 0 n = Some (S @ drop n xs)
           \<and> sorted (map f S) \<and> length S = n \<and> mset S = mset (take n xs)
           \<and> (\<forall>k. filter (\<lambda>x. f x = k) S = filter (\<lambda>x. f x = k) (take n xs))"
proof (cases n)
  case 0
  then show ?thesis by (simp add: insertion_sort_def)
next
  case (Suc m)
  then obtain x xs' where x: "xs = x # xs'" using assms by (cases xs) auto
  have "m \<le> length xs'" using assms Suc x by simp
  from insertion_sort_loop_correct [of "[x]" f m xs', OF _ _ this]
  show ?thesis by (simp add: insertion_sort_def Suc x)
qed


lemma unguarded_insertion_sort_correct:
  fixes f :: "'a \<Rightarrow> 'k::linorder"
  assumes "sorted (map f P)"
    and "\<forall>j<length R. \<exists>x\<in>set P \<union> set (take j R). f x \<le> f (R ! j)"
  shows "\<exists>S. unguarded_insertion_sort (\<lambda>a b. f a < f b) (P @ R) (length P) (length P + length R)
               = Some S
           \<and> sorted (map f S) \<and> mset S = mset (P @ R)"
  using assms
proof (induction R arbitrary: P)
  case Nil
  then show ?case by (simp add: unguarded_insertion_sort.simps)
next
  case (Cons v R')
  have "\<exists>x\<in>set P. f x \<le> f v" using Cons.prems(2) by fastforce
  from unguarded_linear_insert_loop_correct [OF this, of v R'] obtain P1 P2 where
    q: "P = P1 @ P2" and ne: "P1 \<noteq> []" and le: "f (last P1) \<le> f v"
    and gt: "\<forall>x\<in>set P2. f v < f x"
    and run: "unguarded_linear_insert_loop (\<lambda>a b. f a < f b) (P @ v # R') v (length P)
                = Some (P1 @ v # P2 @ R')"
    by blast
  let ?P' = "P1 @ v # P2"
  have uli: "unguarded_linear_insert (\<lambda>a b. f a < f b) (P @ v # R') (length P) = Some (?P' @ R')"
    using run by (simp add: unguarded_linear_insert_def)
  have len: "length ?P' = Suc (length P)" using q by simp
  have step: "unguarded_insertion_sort (\<lambda>a b. f a < f b) (P @ v # R') (length P)
                 (length P + length (v # R'))
            = unguarded_insertion_sort (\<lambda>a b. f a < f b) (?P' @ R') (length ?P')
                 (length ?P' + length R')"
    by (subst unguarded_insertion_sort.simps) (simp add: uli len del: length_append)
  have s: "sorted (map f (P1 @ P2))" using Cons.prems(1) q by simp
  have sorted': "sorted (map f ?P')" by (rule sorted_insert_behind(1) [OF s ne le gt])
  have cond: "\<forall>j<length R'. \<exists>x\<in>set ?P' \<union> set (take j R'). f x \<le> f (R' ! j)"
  proof (intro allI impI)
    fix j assume "j < length R'"
    then have "\<exists>x\<in>set P \<union> set (take (Suc j) (v # R')). f x \<le> f ((v # R') ! Suc j)"
      using Cons.prems(2) by (metis Suc_less_eq length_Cons)
    then show "\<exists>x\<in>set ?P' \<union> set (take j R'). f x \<le> f (R' ! j)"
      using q by auto
  qed
  from Cons.IH [OF sorted' cond] obtain S where
    "unguarded_insertion_sort (\<lambda>a b. f a < f b) (?P' @ R') (length ?P') (length ?P' + length R')
       = Some S" "sorted (map f S)" "mset S = mset (?P' @ R')"
    by blast
  then show ?case using step q by (intro exI [of _ S]) simp
qed

text \<open>The final pass sorts every sequence in which each element from position 16 on has an
  element before it that is not greater.\<close>

lemma final_insertion_sort_correct:
  fixes f :: "'a \<Rightarrow> 'k::linorder"
  assumes "\<forall>j. 16 \<le> j \<and> j < length xs \<longrightarrow> (\<exists>i<j. f (xs ! i) \<le> f (xs ! j))"
  shows "\<exists>S. final_insertion_sort (\<lambda>a b. f a < f b) xs 0 (length xs) = Some S
           \<and> sorted (map f S) \<and> mset S = mset xs"
proof (cases "16 < length xs")
  case False
  then show ?thesis
    using insertion_sort_correct [of "length xs" xs f]
    by (auto simp: final_insertion_sort_def)
next
  case True
  then have "16 \<le> length xs" by simp
  from insertion_sort_correct [OF this, of f] obtain P where
    p: "insertion_sort (\<lambda>a b. f a < f b) xs 0 16 = Some (P @ drop 16 xs)"
       "sorted (map f P)" "length P = 16" "mset P = mset (take 16 xs)"
    by blast
  have set_p: "set P = set (take 16 xs)" using p(4) by (rule mset_eq_setD)
  let ?R = "drop 16 xs"
  have cond: "\<forall>j<length ?R. \<exists>x\<in>set P \<union> set (take j ?R). f x \<le> f (?R ! j)"
  proof (intro allI impI)
    fix j assume j: "j < length ?R"
    then have "16 + j < length xs" by simp
    with assms [rule_format, of "16 + j"]
    obtain i where i: "i < 16 + j" "f (xs ! i) \<le> f (xs ! (16 + j))" by auto
    have "xs ! i \<in> set P \<union> set (take j ?R)"
    proof (cases "i < 16")
      case True
      then have "xs ! i \<in> set (take 16 xs)"
        using \<open>16 \<le> length xs\<close> by (metis in_set_conv_nth length_take min.absorb2 nth_take)
      then show ?thesis using set_p by simp
    next
      case False
      then have "i - 16 < j" "xs ! i = ?R ! (i - 16)" using i(1) j by auto
      then have "xs ! i \<in> set (take j ?R)"
        using j by (metis in_set_conv_nth length_take min.absorb2 nth_take less_imp_le)
      then show ?thesis by simp
    qed
    moreover have "?R ! j = xs ! (16 + j)" using \<open>16 + j < length xs\<close> by simp
    ultimately show "\<exists>x\<in>set P \<union> set (take j ?R). f x \<le> f (?R ! j)"
      using i(2) by metis
  qed
  from unguarded_insertion_sort_correct [OF p(2) cond] obtain S where
    s: "unguarded_insertion_sort (\<lambda>a b. f a < f b) (P @ ?R) (length P) (length P + length ?R)
          = Some S" "sorted (map f S)" "mset S = mset (P @ ?R)"
    by blast
  have len: "length P + length ?R = length xs" using p(3) True by simp
  have "mset (take 16 xs) + mset (drop 16 xs) = mset xs"
    by (metis append_take_drop_id mset_append)
  then have "mset S = mset xs" using s(3) p(4) by simp
  then show ?thesis
    using True p(1) s(1,2) len p(3) by (simp add: final_insertion_sort_def)
qed

lemma introsort_loop_small:
  "lst - first \<le> 16 \<Longrightarrow> introsort_loop cmp xs first lst d = Some xs"
  by (cases d) simp_all

text \<open>Up to 16 elements only the insertion sort runs, and it is stable.\<close>

lemma std_sort_small:
  fixes f :: "'a \<Rightarrow> 'k::linorder"
  assumes "length xs \<le> 16"
  shows "\<exists>S. std_sort (\<lambda>a b. f a < f b) xs = Some S
           \<and> sorted (map f S) \<and> mset S = mset xs
           \<and> (\<forall>k. filter (\<lambda>x. f x = k) S = filter (\<lambda>x. f x = k) xs)"
proof -
  have "std_sort (\<lambda>a b. f a < f b) xs = insertion_sort (\<lambda>a b. f a < f b) xs 0 (length xs)"
    using assms by (simp add: std_sort_def introsort_loop_small final_insertion_sort_def insertion_sort_def)
  then show ?thesis
    using insertion_sort_correct [of "length xs" xs f] by auto
qed

subsection \<open>Partition\<close>

lemma scan_up_correct:
  fixes f :: "'a \<Rightarrow> 'k::linorder"
  assumes "first \<le> u" "u < length xs" "\<not> f (xs ! u) < f (xs ! pivot)"
  shows "\<exists>p. scan_up (\<lambda>a b. f a < f b) xs first pivot = Some p \<and> first \<le> p \<and> p \<le> u
           \<and> \<not> f (xs ! p) < f (xs ! pivot)
           \<and> (\<forall>i. first \<le> i \<and> i < p \<longrightarrow> f (xs ! i) < f (xs ! pivot))"
  using assms
proof (induction "u - first" arbitrary: first)
  case 0
  then have "first = u" by simp
  then show ?case using 0 by (subst scan_up.simps) auto
next
  case (Suc n)
  show ?case
  proof (cases "f (xs ! first) < f (xs ! pivot)")
    case False
    then show ?thesis using Suc.prems by (subst scan_up.simps) auto
  next
    case True
    have "n = u - Suc first" "Suc first \<le> u" using Suc.hyps(2) by auto
    from Suc.hyps(1) [OF this Suc.prems(2,3)] obtain p where
      p: "scan_up (\<lambda>a b. f a < f b) xs (Suc first) pivot = Some p" "Suc first \<le> p" "p \<le> u"
         "\<not> f (xs ! p) < f (xs ! pivot)"
         "\<forall>i. Suc first \<le> i \<and> i < p \<longrightarrow> f (xs ! i) < f (xs ! pivot)"
      by blast
    have "\<forall>i. first \<le> i \<and> i < p \<longrightarrow> f (xs ! i) < f (xs ! pivot)"
      using p(5) True by (metis Suc_leI le_neq_implies_less)
    moreover have "scan_up (\<lambda>a b. f a < f b) xs first pivot = Some p"
      using True p(1) Suc.prems by (subst scan_up.simps) auto
    ultimately show ?thesis using p by (intro exI [of _ p]) simp
  qed
qed

lemma scan_down_correct:
  fixes f :: "'a \<Rightarrow> 'k::linorder"
  assumes "d \<le> l" "\<not> f (xs ! pivot) < f (xs ! d)"
  shows "\<exists>q. scan_down (\<lambda>a b. f a < f b) xs l pivot = Some q \<and> d \<le> q \<and> q \<le> l
           \<and> \<not> f (xs ! pivot) < f (xs ! q)
           \<and> (\<forall>i. q < i \<and> i \<le> l \<longrightarrow> f (xs ! pivot) < f (xs ! i))"
  using assms
proof (induction l)
  case 0
  then show ?case by simp
next
  case (Suc l)
  show ?case
  proof (cases "f (xs ! pivot) < f (xs ! Suc l)")
    case False
    then show ?thesis using Suc.prems by (intro exI [of _ "Suc l"]) auto
  next
    case True
    then have "d \<le> l" using Suc.prems by (metis le_SucE)
    from Suc.IH [OF this Suc.prems(2)] obtain q where
      q: "scan_down (\<lambda>a b. f a < f b) xs l pivot = Some q" "d \<le> q" "q \<le> l"
         "\<not> f (xs ! pivot) < f (xs ! q)"
         "\<forall>i. q < i \<and> i \<le> l \<longrightarrow> f (xs ! pivot) < f (xs ! i)"
      by blast
    have "\<forall>i. q < i \<and> i \<le> Suc l \<longrightarrow> f (xs ! pivot) < f (xs ! i)"
      using q(5) True by (metis le_SucE)
    then show ?thesis using q True by (intro exI [of _ q]) simp
  qed
qed

lemma iter_swap_props:
  assumes "i < length xs" "j < length xs"
  shows "length (iter_swap xs i j) = length xs"
    and "mset (iter_swap xs i j) = mset xs"
    and "iter_swap xs i j ! i = xs ! j"
    and "iter_swap xs i j ! j = xs ! i"
    and "\<And>k. k \<noteq> i \<Longrightarrow> k \<noteq> j \<Longrightarrow> iter_swap xs i j ! k = xs ! k"
  using assms
  by (simp_all add: iter_swap_def mset_swap nth_list_update)

lemma unguarded_partition_correct:
  fixes f :: "'a \<Rightarrow> 'k::linorder"
  assumes "pivot < first" "first \<le> u" "u \<le> lst" "u < length xs" "lst \<le> length xs"
    and "\<not> f (xs ! u) < f (xs ! pivot)"
  shows "\<exists>ys c. unguarded_partition (\<lambda>a b. f a < f b) xs first lst pivot = Some (ys, c)
           \<and> first \<le> c \<and> c \<le> lst \<and> length ys = length xs \<and> mset ys = mset xs
           \<and> (\<forall>i. i < first \<or> lst \<le> i \<longrightarrow> ys ! i = xs ! i)
           \<and> (\<forall>i. first \<le> i \<and> i < c \<longrightarrow> f (ys ! i) \<le> f (xs ! pivot))
           \<and> (\<forall>i. c \<le> i \<and> i < lst \<longrightarrow> f (xs ! pivot) \<le> f (ys ! i))"
  using assms
proof (induction lst arbitrary: xs first u rule: less_induct)
  case (less lst)
  from scan_up_correct [OF less.prems(2,4,6)] obtain p where
    p: "scan_up (\<lambda>a b. f a < f b) xs first pivot = Some p" "first \<le> p" "p \<le> u"
       "\<not> f (xs ! p) < f (xs ! pivot)"
       "\<forall>i. first \<le> i \<and> i < p \<longrightarrow> f (xs ! i) < f (xs ! pivot)"
    by blast
  obtain l0 where l0: "lst = Suc l0"
    using less.prems(1,2,3) by (cases lst) auto
  have "pivot \<le> l0" using less.prems(1,2,3) l0 by simp
  from scan_down_correct [OF this, of f xs pivot] obtain q where
    q: "scan_down (\<lambda>a b. f a < f b) xs l0 pivot = Some q" "pivot \<le> q" "q \<le> l0"
       "\<not> f (xs ! pivot) < f (xs ! q)"
       "\<forall>i. q < i \<and> i \<le> l0 \<longrightarrow> f (xs ! pivot) < f (xs ! i)"
    by auto
  show ?case
  proof (cases "p < q")
    case False
    have run: "unguarded_partition (\<lambda>a b. f a < f b) xs first lst pivot = Some (xs, p)"
      using p(1) q(1) l0 False by (subst unguarded_partition.simps) simp
    have a: "\<forall>i. first \<le> i \<and> i < p \<longrightarrow> f (xs ! i) \<le> f (xs ! pivot)"
      using p(5) by (auto intro: less_imp_le)
    have b: "\<forall>i. p \<le> i \<and> i < lst \<longrightarrow> f (xs ! pivot) \<le> f (xs ! i)"
    proof (intro allI impI)
      fix i assume i: "p \<le> i \<and> i < lst"
      show "f (xs ! pivot) \<le> f (xs ! i)"
      proof (cases "i = p")
        case True
        then show ?thesis using p(4) by (simp add: not_less)
      next
        case ne: False
        then have "q < i \<and> i \<le> l0" using i False l0 by auto
        then show ?thesis using q(5) by (auto intro: less_imp_le)
      qed
    qed
    show ?thesis
      using run p(2,3) less.prems(3) a b by (intro exI [of _ xs] exI [of _ p]) simp
  next
    case True
    let ?xs = "iter_swap xs p q"
    have pq: "p < length xs" "q < length xs" "p \<noteq> q" "pivot \<noteq> p" "pivot \<noteq> q"
      using True q(3) l0 less.prems(1,5) p(2) by auto
    note sw = iter_swap_props [OF pq(1,2)]
    have run: "unguarded_partition (\<lambda>a b. f a < f b) xs first lst pivot
                 = unguarded_partition (\<lambda>a b. f a < f b) ?xs (Suc p) q pivot"
      using p(1) q(1) l0 True by (subst unguarded_partition.simps) simp
    have piv: "?xs ! pivot = xs ! pivot" using sw(5) pq(4,5) by simp
    have "q < lst" using q(3) l0 by simp
    moreover have "pivot < Suc p" using less.prems(1) p(2) by simp
    moreover have "Suc p \<le> q" using True by simp
    moreover have "q < length ?xs" "q \<le> length ?xs" using pq(2) sw(1) by simp_all
    moreover have "\<not> f (?xs ! q) < f (?xs ! pivot)" using sw(4) piv p(4) by simp
    ultimately obtain ys c where
      r: "unguarded_partition (\<lambda>a b. f a < f b) ?xs (Suc p) q pivot = Some (ys, c)"
         "Suc p \<le> c" "c \<le> q" "length ys = length ?xs" "mset ys = mset ?xs"
         "\<forall>i. i < Suc p \<or> q \<le> i \<longrightarrow> ys ! i = ?xs ! i"
         "\<forall>i. Suc p \<le> i \<and> i < c \<longrightarrow> f (ys ! i) \<le> f (?xs ! pivot)"
         "\<forall>i. c \<le> i \<and> i < q \<longrightarrow> f (?xs ! pivot) \<le> f (ys ! i)"
      using less.IH [of q "Suc p" q ?xs] by blast
    have frame: "\<forall>i. i < first \<or> lst \<le> i \<longrightarrow> ys ! i = xs ! i"
    proof (intro allI impI)
      fix i assume i: "i < first \<or> lst \<le> i"
      then have "i < Suc p \<or> q \<le> i" "i \<noteq> p" "i \<noteq> q"
        using p(2) \<open>q < lst\<close> True by auto
      then show "ys ! i = xs ! i" using r(6) sw(5) by metis
    qed
    have a: "\<forall>i. first \<le> i \<and> i < c \<longrightarrow> f (ys ! i) \<le> f (xs ! pivot)"
    proof (intro allI impI)
      fix i assume i: "first \<le> i \<and> i < c"
      consider "i < p" | "i = p" | "Suc p \<le> i" by linarith
      then show "f (ys ! i) \<le> f (xs ! pivot)"
      proof cases
        case 1
        then have "ys ! i = xs ! i" using r(6) sw(5) True by simp
        then show ?thesis using p(5) i 1 by (auto intro: less_imp_le)
      next
        case 2
        then have "ys ! i = xs ! q" using r(6) sw(3) by simp
        then show ?thesis using q(4) by (simp add: not_less)
      next
        case 3
        then show ?thesis using r(7) i piv by simp
      qed
    qed
    have b: "\<forall>i. c \<le> i \<and> i < lst \<longrightarrow> f (xs ! pivot) \<le> f (ys ! i)"
    proof (intro allI impI)
      fix i assume i: "c \<le> i \<and> i < lst"
      consider "i < q" | "i = q" | "q < i" by linarith
      then show "f (xs ! pivot) \<le> f (ys ! i)"
      proof cases
        case 1
        then show ?thesis using r(8) i piv by simp
      next
        case 2
        then have "ys ! i = xs ! p" using r(6) sw(4) by simp
        then show ?thesis using p(4) by (simp add: not_less)
      next
        case 3
        then have "ys ! i = xs ! i" using r(6) sw(5) True by simp
        moreover have "q < i \<and> i \<le> l0" using 3 i l0 by simp
        ultimately show ?thesis using q(5) by (auto intro: less_imp_le)
      qed
    qed
    have "first \<le> c" "c \<le> lst" using r(2,3) p(2) \<open>q < lst\<close> by simp_all
    moreover have "length ys = length xs" "mset ys = mset xs" using r(4,5) sw(1,2) by simp_all
    ultimately show ?thesis
      using run r(1) frame a b by (intro exI [of _ ys] exI [of _ c]) simp
  qed
qed

lemma move_median_to_first_correct:
  fixes f :: "'a \<Rightarrow> 'k::linorder"
  assumes "first < a" "a < b" "b < c" "c < length xs"
  defines "ys \<equiv> move_median_to_first (\<lambda>a b. f a < f b) xs first a b c"
  shows "length ys = length xs" and "mset ys = mset xs"
    and "\<forall>i. i < first \<or> c < i \<longrightarrow> ys ! i = xs ! i"
    and "\<exists>u. a \<le> u \<and> u \<le> c \<and> \<not> f (ys ! u) < f (ys ! first)"
proof -
  have lt: "first < length xs" "a < length xs" "b < length xs" using assms(1-4) by simp_all
  show "length ys = length xs"
    by (simp add: ys_def move_median_to_first_def iter_swap_def)
  show "mset ys = mset xs"
    using lt assms(4)
    by (simp add: ys_def move_median_to_first_def iter_swap_props(2))
  show "\<forall>i. i < first \<or> c < i \<longrightarrow> ys ! i = xs ! i"
    using assms(1-4)
    by (auto simp: ys_def move_median_to_first_def iter_swap_def nth_list_update)
  have "\<not> f (ys ! a) < f (ys ! first) \<or> \<not> f (ys ! b) < f (ys ! first)
          \<or> \<not> f (ys ! c) < f (ys ! first)"
    using assms(1-4) lt
    by (auto simp: ys_def move_median_to_first_def iter_swap_def nth_list_update)
  then show "\<exists>u. a \<le> u \<and> u \<le> c \<and> \<not> f (ys ! u) < f (ys ! first)"
    using assms(2,3) by (metis le_refl less_imp_le order_trans)
qed

lemma unguarded_partition_pivot_correct:
  fixes f :: "'a \<Rightarrow> 'k::linorder"
  assumes "16 < lst - first" "lst \<le> length xs"
  shows "\<exists>ys c. unguarded_partition_pivot (\<lambda>a b. f a < f b) xs first lst = Some (ys, c)
           \<and> first < c \<and> c \<le> lst \<and> length ys = length xs \<and> mset ys = mset xs
           \<and> (\<forall>i. i < first \<or> lst \<le> i \<longrightarrow> ys ! i = xs ! i)
           \<and> (\<forall>i j. first \<le> i \<and> i < c \<and> c \<le> j \<and> j < lst \<longrightarrow> f (ys ! i) \<le> f (ys ! j))"
proof -
  let ?mid = "first + (lst - first) div 2"
  let ?xs = "move_median_to_first (\<lambda>a b. f a < f b) xs first (first + 1) ?mid (lst - 1)"
  have o: "first < first + 1" "first + 1 < ?mid" "?mid < lst - 1" "lst - 1 < length xs"
    using assms by auto
  note mm = move_median_to_first_correct [OF o, of f]
  from mm(4) obtain u where
    u: "first + 1 \<le> u" "u \<le> lst - 1" "\<not> f (?xs ! u) < f (?xs ! first)" by blast
  have "first < first + 1" "u \<le> lst" "u < length ?xs" "lst \<le> length ?xs"
    using u(2) assms mm(1) by auto
  from unguarded_partition_correct [OF this(1) u(1) this(2,3,4) u(3)]
  obtain ys c where
    r: "unguarded_partition (\<lambda>a b. f a < f b) ?xs (first + 1) lst first = Some (ys, c)"
       "first + 1 \<le> c" "c \<le> lst" "length ys = length ?xs" "mset ys = mset ?xs"
       "\<forall>i. i < first + 1 \<or> lst \<le> i \<longrightarrow> ys ! i = ?xs ! i"
       "\<forall>i. first + 1 \<le> i \<and> i < c \<longrightarrow> f (ys ! i) \<le> f (?xs ! first)"
       "\<forall>i. c \<le> i \<and> i < lst \<longrightarrow> f (?xs ! first) \<le> f (ys ! i)"
    by blast
  have run: "unguarded_partition_pivot (\<lambda>a b. f a < f b) xs first lst = Some (ys, c)"
    using r(1) by (simp add: unguarded_partition_pivot_def Let_def)
  have piv: "ys ! first = ?xs ! first" using r(6) by simp
  have left: "\<forall>i. first \<le> i \<and> i < c \<longrightarrow> f (ys ! i) \<le> f (?xs ! first)"
  proof (intro allI impI)
    fix i assume i: "first \<le> i \<and> i < c"
    show "f (ys ! i) \<le> f (?xs ! first)"
    proof (cases "i = first")
      case True
      then show ?thesis using piv by simp
    next
      case False
      then show ?thesis using r(7) i by simp
    qed
  qed
  have frame: "\<forall>i. i < first \<or> lst \<le> i \<longrightarrow> ys ! i = xs ! i"
  proof (intro allI impI)
    fix i assume i: "i < first \<or> lst \<le> i"
    then have "ys ! i = ?xs ! i" using r(6) by auto
    moreover have "i < first \<or> lst - 1 < i" using i assms(1) by auto
    ultimately show "ys ! i = xs ! i" using mm(3) by metis
  qed
  have "\<forall>i j. first \<le> i \<and> i < c \<and> c \<le> j \<and> j < lst \<longrightarrow> f (ys ! i) \<le> f (ys ! j)"
    using left r(8) by (meson order_trans)
  moreover have "first < c" using r(2) by simp
  moreover have "length ys = length xs" "mset ys = mset xs" using r(4,5) mm(1,2) by simp_all
  ultimately show ?thesis
    using run r(3) frame by (intro exI [of _ ys] exI [of _ c]) simp
qed

subsection \<open>Heap sort\<close>

lemma desc_ge: "desc p h \<Longrightarrow> p \<le> h"
  by (induction p h rule: desc.induct) (subst (asm) desc.simps, auto split: if_splits)

lemma desc_refl: "desc p p"
  by (subst desc.simps) simp

lemma desc_parent: "desc p h \<Longrightarrow> h \<noteq> p \<Longrightarrow> desc p ((h - 1) div 2)"
  by (subst (asm) desc.simps) (auto split: if_splits)

lemma desc_child: "desc p h \<Longrightarrow> 0 < c \<Longrightarrow> (c - 1) div 2 = h \<Longrightarrow> desc p c"
  using desc_ge [of p h] by (subst desc.simps) auto

lemma mset_move_hole:
  assumes "i < length xs" "j < length xs" "i \<noteq> j"
  shows "mset (xs[i := xs ! j, j := V]) = mset (xs[i := V])"
  using assms by (simp add: mset_update nth_list_update)

lemma hole_step:
  fixes f :: "'a \<Rightarrow> 'k::linorder"
  assumes hh: "heap_hole f xs first len p h" and d: "desc p h"
    and c: "0 < c" "c < len" "(c - 1) div 2 = h"
    and mx: "\<forall>i. 0 < i \<and> i < len \<and> (i - 1) div 2 = h \<longrightarrow> f (xs ! (first + i)) \<le> f (xs ! (first + c))"
    and len: "first + len \<le> length xs"
  shows "heap_hole f (xs[first + h := xs ! (first + c)]) first len p c"
    and "desc p c"
    and "mset ((xs[first + h := xs ! (first + c)])[first + c := V]) = mset (xs[first + h := V])"
proof -
  let ?ys = "xs[first + h := xs ! (first + c)]"
  have hc: "h < c" using c(1,3) by auto
  have ph: "p \<le> h" using d by (rule desc_ge)
  have nth: "\<And>j. j < len \<Longrightarrow> ?ys ! (first + j) = (if j = h then xs ! (first + c) else xs ! (first + j))"
    using len hc c(2) by (simp add: nth_list_update)
  show "desc p c" using d c(1,3) by (rule desc_child)
  show "mset (?ys[first + c := V]) = mset (xs[first + h := V])"
    using hc c(2) len by (intro mset_move_hole) auto
  have hh1: "\<And>i. 0 < i \<Longrightarrow> i < len \<Longrightarrow> p \<le> (i - 1) div 2 \<Longrightarrow> i \<noteq> h \<Longrightarrow> (i - 1) div 2 \<noteq> h
               \<Longrightarrow> f (xs ! (first + i)) \<le> f (xs ! (first + (i - 1) div 2))"
    using hh by (simp add: heap_hole_def)
  have hh2: "\<And>i. p < h \<Longrightarrow> 0 < i \<Longrightarrow> i < len \<Longrightarrow> (i - 1) div 2 = h
               \<Longrightarrow> f (xs ! (first + i)) \<le> f (xs ! (first + (h - 1) div 2))"
    using hh by (simp add: heap_hole_def)
  have a: "f (?ys ! (first + i)) \<le> f (?ys ! (first + (i - 1) div 2))"
    if i: "0 < i" "i < len" "p \<le> (i - 1) div 2" "i \<noteq> c" "(i - 1) div 2 \<noteq> c" for i
  proof -
    have pl: "(i - 1) div 2 < len" using i(1,2) by auto
    consider "i = h" | "i \<noteq> h" "(i - 1) div 2 = h" | "i \<noteq> h" "(i - 1) div 2 \<noteq> h" by blast
    then show ?thesis
    proof cases
      case 1
      then have "p < h" "(h - 1) div 2 \<noteq> h" using i(1,3) by auto
      then show ?thesis using 1 hh2 [OF \<open>p < h\<close> c] nth [OF i(2)] nth [OF pl] by simp
    next
      case 2
      then show ?thesis using mx i(1,2) nth [OF i(2)] nth [OF pl] by simp
    next
      case 3
      then show ?thesis using hh1 [OF i(1,2,3)] nth [OF i(2)] nth [OF pl] by simp
    qed
  qed
  have b: "f (?ys ! (first + i)) \<le> f (?ys ! (first + (c - 1) div 2))"
    if i: "0 < i" "i < len" "(i - 1) div 2 = c" for i
  proof -
    have "i \<noteq> h" "c < i" using i(1,3) hc by auto
    moreover have "h < len" using hc c(2) by simp
    moreover have "f (xs ! (first + i)) \<le> f (xs ! (first + (i - 1) div 2))"
      using hh1 [OF i(1,2)] i(3) ph hc by auto
    ultimately show ?thesis using nth [OF i(2)] nth [of h] c(3) i(3) by simp
  qed
  show "heap_hole f ?ys first len p c"
    unfolding heap_hole_def using a b by blast
qed


lemma adjust_heap_loop_correct:
  fixes f :: "'a \<Rightarrow> 'k::linorder"
  assumes "heap_hole f xs first len p h" "desc p h" "h < len" "first + len \<le> length xs"
  shows "\<exists>ys h'. adjust_heap_loop (\<lambda>a b. f a < f b) xs first h h len = (ys, h', h')
           \<and> heap_hole f ys first len p h' \<and> desc p h' \<and> h' < len \<and> (len - 1) div 2 \<le> h'
           \<and> length ys = length xs
           \<and> (\<forall>i. i < first \<or> first + len \<le> i \<longrightarrow> ys ! i = xs ! i)
           \<and> (\<forall>V. mset (ys[first + h' := V]) = mset (xs[first + h := V]))"
  using assms
proof (induction "len - h" arbitrary: xs h rule: less_induct)
  case less
  show ?case
  proof (cases "h < (len - 1) div 2")
    case False
    then have "adjust_heap_loop (\<lambda>a b. f a < f b) xs first h h len = (xs, h, h)"
      by (subst adjust_heap_loop.simps) simp
    then show ?thesis using less.prems False by (intro exI [of _ xs] exI [of _ h]) simp
  next
    case True
    let ?sc = "2 * (h + 1)"
    define c where "c = (if f (xs ! (first + ?sc)) < f (xs ! (first + (?sc - 1))) then ?sc - 1 else ?sc)"
    let ?xs = "xs[first + h := xs ! (first + c)]"
    have sc: "?sc < len" using True by auto
    have c: "0 < c" "c < len" "(c - 1) div 2 = h" using sc by (auto simp: c_def)
    have mx: "\<forall>i. 0 < i \<and> i < len \<and> (i - 1) div 2 = h
                \<longrightarrow> f (xs ! (first + i)) \<le> f (xs ! (first + c))"
    proof (intro allI impI)
      fix i assume "0 < i \<and> i < len \<and> (i - 1) div 2 = h"
      then have "i = ?sc - 1 \<or> i = ?sc" by auto
      then show "f (xs ! (first + i)) \<le> f (xs ! (first + c))"
        by (auto simp: c_def)
    qed
    note hs = hole_step [OF less.prems(1,2) c mx less.prems(4)]
    have run: "adjust_heap_loop (\<lambda>a b. f a < f b) xs first h h len
                 = adjust_heap_loop (\<lambda>a b. f a < f b) ?xs first c c len"
      using True by (subst adjust_heap_loop.simps) (simp add: c_def Let_def)
    have "len - c < len - h" using c by auto
    moreover have "first + len \<le> length ?xs" using less.prems(4) by simp
    ultimately obtain ys h' where
      r: "adjust_heap_loop (\<lambda>a b. f a < f b) ?xs first c c len = (ys, h', h')"
         "heap_hole f ys first len p h'" "desc p h'" "h' < len" "(len - 1) div 2 \<le> h'"
         "length ys = length ?xs"
         "\<forall>i. i < first \<or> first + len \<le> i \<longrightarrow> ys ! i = ?xs ! i"
         "\<forall>V. mset (ys[first + h' := V]) = mset (?xs[first + c := V])"
      using less.hyps [OF _ hs(1,2) c(2)] by blast
    have "\<forall>i. i < first \<or> first + len \<le> i \<longrightarrow> ys ! i = xs ! i"
      using r(7) less.prems(3) by (auto simp: nth_list_update)
    moreover have "\<forall>V. mset (ys[first + h' := V]) = mset (xs[first + h := V])"
      using r(8) hs(3) by simp
    ultimately show ?thesis
      using run r by (intro exI [of _ ys] exI [of _ h']) simp
  qed
qed

lemma push_heap_correct:
  fixes f :: "'a \<Rightarrow> 'k::linorder"
  assumes "heap_hole f xs first len p h" "desc p h" "h < len" "first + len \<le> length xs"
    and "\<forall>i. 0 < i \<and> i < len \<and> (i - 1) div 2 = h \<longrightarrow> f (xs ! (first + i)) \<le> f val"
  shows "heap_from f (push_heap (\<lambda>a b. f a < f b) xs first h p val) first len p
           \<and> length (push_heap (\<lambda>a b. f a < f b) xs first h p val) = length xs
           \<and> (\<forall>i. i < first \<or> first + len \<le> i
                \<longrightarrow> push_heap (\<lambda>a b. f a < f b) xs first h p val ! i = xs ! i)
           \<and> mset (push_heap (\<lambda>a b. f a < f b) xs first h p val) = mset (xs[first + h := val])"
  using assms
proof (induction h arbitrary: xs rule: less_induct)
  case (less h)
  have ph: "p \<le> h" using less.prems(2) by (rule desc_ge)
  have hh1: "\<And>i. 0 < i \<Longrightarrow> i < len \<Longrightarrow> p \<le> (i - 1) div 2 \<Longrightarrow> i \<noteq> h \<Longrightarrow> (i - 1) div 2 \<noteq> h
               \<Longrightarrow> f (xs ! (first + i)) \<le> f (xs ! (first + (i - 1) div 2))"
    using less.prems(1) by (simp add: heap_hole_def)
  have hh2: "\<And>i. p < h \<Longrightarrow> 0 < i \<Longrightarrow> i < len \<Longrightarrow> (i - 1) div 2 = h
               \<Longrightarrow> f (xs ! (first + i)) \<le> f (xs ! (first + (h - 1) div 2))"
    using less.prems(1) by (simp add: heap_hole_def)
  let ?par = "(h - 1) div 2"
  show ?case
  proof (cases "p < h \<and> f (xs ! (first + ?par)) < f val")
    case False
    have run: "push_heap (\<lambda>a b. f a < f b) xs first h p val = xs[first + h := val]"
      using False by (subst push_heap.simps) (auto simp: Let_def)
    have nth: "\<And>j. j < len \<Longrightarrow> (xs[first + h := val]) ! (first + j) = (if j = h then val else xs ! (first + j))"
      using less.prems(3,4) by (simp add: nth_list_update)
    have "f ((xs[first + h := val]) ! (first + i)) \<le> f ((xs[first + h := val]) ! (first + (i - 1) div 2))"
      if i: "0 < i" "i < len" "p \<le> (i - 1) div 2" for i
    proof -
      have pl: "(i - 1) div 2 < len" using i(1,2) by auto
      consider "i = h" | "i \<noteq> h" "(i - 1) div 2 = h" | "i \<noteq> h" "(i - 1) div 2 \<noteq> h" by blast
      then show ?thesis
      proof cases
        case 1
        then have "p < h" "?par \<noteq> h" using i(1,3) by auto
        then have "f val \<le> f (xs ! (first + ?par))" using False by (simp add: not_less)
        then show ?thesis using 1 \<open>?par \<noteq> h\<close> nth [OF i(2)] nth [OF pl] by simp
      next
        case 2
        then show ?thesis using less.prems(5) i(1,2) nth [OF i(2)] nth [OF pl] by simp
      next
        case 3
        then show ?thesis using hh1 [OF i(1,2,3)] nth [OF i(2)] nth [OF pl] by simp
      qed
    qed
    then have "heap_from f (xs[first + h := val]) first len p"
      unfolding heap_from_def by blast
    moreover have "\<forall>i. i < first \<or> first + len \<le> i \<longrightarrow> (xs[first + h := val]) ! i = xs ! i"
      using less.prems(3) by (auto simp: nth_list_update)
    ultimately show ?thesis using run by simp
  next
    case True
    let ?ys = "xs[first + h := xs ! (first + ?par)]"
    have hp: "?par < h" "0 < h" "h \<noteq> p" using True by auto
    have dp: "desc p ?par" using less.prems(2) hp(3) by (rule desc_parent)
    have pp: "p \<le> ?par" using dp by (rule desc_ge)
    have run: "push_heap (\<lambda>a b. f a < f b) xs first h p val
                 = push_heap (\<lambda>a b. f a < f b) ?ys first ?par p val"
      using True by (subst push_heap.simps) (simp add: Let_def)
    have nth: "\<And>j. j < len \<Longrightarrow> ?ys ! (first + j) = (if j = h then xs ! (first + ?par) else xs ! (first + j))"
      using less.prems(3,4) by (simp add: nth_list_update)
    have parlen: "?par < len" using hp(1) less.prems(3) by simp
    have up: "f (xs ! (first + ?par)) \<le> f (xs ! (first + (?par - 1) div 2))" if "p < ?par"
    proof -
      have "?par \<noteq> p" using that by simp
      with dp have "desc p ((?par - 1) div 2)" by (rule desc_parent)
      then have "p \<le> (?par - 1) div 2" by (rule desc_ge)
      moreover have "0 < ?par" using that by simp
      moreover have "?par \<noteq> h" "(?par - 1) div 2 \<noteq> h" using hp(1) by auto
      ultimately show ?thesis using hh1 [of ?par] parlen by simp
    qed
    have a: "f (?ys ! (first + i)) \<le> f (?ys ! (first + (i - 1) div 2))"
      if i: "0 < i" "i < len" "p \<le> (i - 1) div 2" "i \<noteq> ?par" "(i - 1) div 2 \<noteq> ?par" for i
    proof -
      have pl: "(i - 1) div 2 < len" using i(1,2) by auto
      have "i \<noteq> h" using i(5) by auto
      show ?thesis
      proof (cases "(i - 1) div 2 = h")
        case True
        then show ?thesis
          using hh2 [OF _ i(1,2)] \<open>i \<noteq> h\<close> \<open>p < h \<and> _\<close> nth [OF i(2)] nth [OF pl] by simp
      next
        case False
        then show ?thesis using hh1 [OF i(1,2,3)] \<open>i \<noteq> h\<close> nth [OF i(2)] nth [OF pl] by simp
      qed
    qed
    have child: "f (?ys ! (first + i)) \<le> f (xs ! (first + ?par))"
      if i: "0 < i" "i < len" "(i - 1) div 2 = ?par" for i
    proof (cases "i = h")
      case True
      then show ?thesis using nth [OF i(2)] by simp
    next
      case False
      moreover have "(i - 1) div 2 \<noteq> h" using i(3) hp(1) by simp
      ultimately show ?thesis using hh1 [OF i(1,2)] i(3) pp nth [OF i(2)] by simp
    qed
    have b: "f (?ys ! (first + i)) \<le> f (?ys ! (first + (?par - 1) div 2))"
      if i: "0 < i" "i < len" "(i - 1) div 2 = ?par" "p < ?par" for i
    proof -
      have "(?par - 1) div 2 \<noteq> h" "(?par - 1) div 2 < len" using hp(1) parlen by auto
      then have "?ys ! (first + (?par - 1) div 2) = xs ! (first + (?par - 1) div 2)"
        using nth by simp
      then show ?thesis using child [OF i(1,2,3)] up [OF i(4)] by simp
    qed
    have hh': "heap_hole f ?ys first len p ?par"
      unfolding heap_hole_def using a b by blast
    have e: "\<forall>i. 0 < i \<and> i < len \<and> (i - 1) div 2 = ?par \<longrightarrow> f (?ys ! (first + i)) \<le> f val"
      using child True by (meson less_imp_le order_trans)
    have "first + len \<le> length ?ys" using less.prems(4) by simp
    note ih = less.IH [OF hp(1) hh' dp parlen this e]
    have "\<forall>i. i < first \<or> first + len \<le> i \<longrightarrow> ?ys ! i = xs ! i"
      using less.prems(3) by (auto simp: nth_list_update)
    moreover have "mset (?ys[first + ?par := val]) = mset (xs[first + h := val])"
      using hp(1) less.prems(3,4) by (intro mset_move_hole) auto
    ultimately show ?thesis using ih run by simp
  qed
qed


lemma heap_from_hole:
  "heap_from f xs first len (Suc p) \<Longrightarrow> heap_hole f xs first len p p"
  unfolding heap_from_def heap_hole_def
  by (metis Suc_leI le_neq_implies_less less_irrefl)

lemma adjust_heap_correct:
  fixes f :: "'a \<Rightarrow> 'k::linorder"
  assumes "heap_from f xs first len (Suc p)" "p < len" "first + len \<le> length xs"
  shows "heap_from f (adjust_heap (\<lambda>a b. f a < f b) xs first p len val) first len p
           \<and> length (adjust_heap (\<lambda>a b. f a < f b) xs first p len val) = length xs
           \<and> (\<forall>i. i < first \<or> first + len \<le> i
                \<longrightarrow> adjust_heap (\<lambda>a b. f a < f b) xs first p len val ! i = xs ! i)
           \<and> mset (adjust_heap (\<lambda>a b. f a < f b) xs first p len val) = mset (xs[first + p := val])"
proof -
  have hh: "heap_hole f xs first len p p" using assms(1) by (rule heap_from_hole)
  from adjust_heap_loop_correct [OF hh desc_refl assms(2,3)] obtain ys h' where
    r: "adjust_heap_loop (\<lambda>a b. f a < f b) xs first p p len = (ys, h', h')"
       "heap_hole f ys first len p h'" "desc p h'" "h' < len" "(len - 1) div 2 \<le> h'"
       "length ys = length xs"
       "\<forall>i. i < first \<or> first + len \<le> i \<longrightarrow> ys ! i = xs ! i"
       "\<forall>V. mset (ys[first + h' := V]) = mset (xs[first + p := V])"
    by blast
  have len': "first + len \<le> length ys" using assms(3) r(6) by simp
  show ?thesis
  proof (cases "even len \<and> len \<noteq> 0 \<and> h' = (len - 2) div 2")
    case True
    let ?c = "2 * (h' + 1) - 1"
    let ?zs = "ys[first + h' := ys ! (first + ?c)]"
    have run: "adjust_heap (\<lambda>a b. f a < f b) xs first p len val
                 = push_heap (\<lambda>a b. f a < f b) ?zs first ?c p val"
      using r(1) True by (simp add: adjust_heap_def Let_def)
    obtain m where "len = 2 * m" using True by (auto elim!: evenE)
    then obtain k where k: "len = 2 * k + 2" using True by (cases m) auto
    then have hk: "h' = k" using True by simp
    have c: "0 < ?c" "?c < len" "(?c - 1) div 2 = h'" "?c = len - 1"
      using k hk by auto
    have mx: "\<forall>i. 0 < i \<and> i < len \<and> (i - 1) div 2 = h'
                \<longrightarrow> f (ys ! (first + i)) \<le> f (ys ! (first + ?c))"
    proof (intro allI impI)
      fix i assume "0 < i \<and> i < len \<and> (i - 1) div 2 = h'"
      then have "i = ?c" using k hk by presburger
      then show "f (ys ! (first + i)) \<le> f (ys ! (first + ?c))" by simp
    qed
    note hs = hole_step [OF r(2,3) c(1,2,3) mx len']
    have e: "\<forall>i. 0 < i \<and> i < len \<and> (i - 1) div 2 = ?c \<longrightarrow> f (?zs ! (first + i)) \<le> f val"
      using c(4) by auto
    have "first + len \<le> length ?zs" using len' by simp
    note ph = push_heap_correct [OF hs(1,2) c(2) this e]
    have "\<forall>i. i < first \<or> first + len \<le> i \<longrightarrow> ?zs ! i = xs ! i"
      using r(7) r(4) by (auto simp: nth_list_update)
    moreover have "mset (?zs[first + ?c := val]) = mset (xs[first + p := val])"
      using hs(3) r(8) by simp
    ultimately show ?thesis using ph run r(6) by simp
  next
    case False
    have run: "adjust_heap (\<lambda>a b. f a < f b) xs first p len val
                 = push_heap (\<lambda>a b. f a < f b) ys first h' p val"
      using r(1) False by (auto simp: adjust_heap_def)
    have e: "\<forall>i. 0 < i \<and> i < len \<and> (i - 1) div 2 = h' \<longrightarrow> f (ys ! (first + i)) \<le> f val"
    proof (intro allI impI)
      fix i assume i: "0 < i \<and> i < len \<and> (i - 1) div 2 = h'"
      have False
      proof (cases "even len")
        case True
        then obtain m where "len = 2 * m" by (auto elim!: evenE)
        then show False using i r(5) False by auto
      next
        case odd: False
        then obtain m where "len = 2 * m + 1" by (auto elim!: oddE)
        then show False using i r(5) by auto
      qed
      then show "f (ys ! (first + i)) \<le> f val" ..
    qed
    note ph = push_heap_correct [OF r(2,3,4) len' e]
    show ?thesis using ph run r(6,7,8) by simp
  qed
qed

lemma make_heap_loop_correct:
  fixes f :: "'a \<Rightarrow> 'k::linorder"
  assumes "heap_from f xs first len (Suc p)" "p < len" "first + len \<le> length xs"
  shows "heap_from f (make_heap_loop (\<lambda>a b. f a < f b) xs first len p) first len 0
           \<and> length (make_heap_loop (\<lambda>a b. f a < f b) xs first len p) = length xs
           \<and> (\<forall>i. i < first \<or> first + len \<le> i
                \<longrightarrow> make_heap_loop (\<lambda>a b. f a < f b) xs first len p ! i = xs ! i)
           \<and> mset (make_heap_loop (\<lambda>a b. f a < f b) xs first len p) = mset xs"
  using assms
proof (induction p arbitrary: xs)
  case 0
  from adjust_heap_correct [OF 0, of "xs ! first"]
  show ?case by simp
next
  case (Suc p)
  let ?ys = "adjust_heap (\<lambda>a b. f a < f b) xs first (Suc p) len (xs ! (first + Suc p))"
  note ah = adjust_heap_correct [OF Suc.prems, of "xs ! (first + Suc p)"]
  have "heap_from f ?ys first len (Suc p)" "p < len" "first + len \<le> length ?ys"
    using ah Suc.prems by simp_all
  from Suc.IH [OF this] ah show ?case by simp
qed

lemma make_heap_correct:
  fixes f :: "'a \<Rightarrow> 'k::linorder"
  assumes "first \<le> lst" "lst \<le> length xs"
  shows "heap_from f (make_heap (\<lambda>a b. f a < f b) xs first lst) first (lst - first) 0
           \<and> length (make_heap (\<lambda>a b. f a < f b) xs first lst) = length xs
           \<and> (\<forall>i. i < first \<or> lst \<le> i \<longrightarrow> make_heap (\<lambda>a b. f a < f b) xs first lst ! i = xs ! i)
           \<and> mset (make_heap (\<lambda>a b. f a < f b) xs first lst) = mset xs"
proof (cases "lst - first < 2")
  case True
  then have "heap_from f xs first (lst - first) 0"
    by (auto simp: heap_from_def)
  then show ?thesis using True by (simp add: make_heap_def)
next
  case False
  let ?len = "lst - first"
  let ?p = "(?len - 2) div 2"
  have "heap_from f xs first ?len (Suc ?p)"
    unfolding heap_from_def by auto
  moreover have "?p < ?len" "first + ?len \<le> length xs" using False assms by auto
  ultimately show ?thesis
    using make_heap_loop_correct [of f xs first ?len ?p] False assms
    by (simp add: make_heap_def)
qed

lemma heap_max:
  fixes f :: "'a \<Rightarrow> 'k::linorder"
  assumes "heap_from f xs first len 0" "i < len"
  shows "f (xs ! (first + i)) \<le> f (xs ! first)"
  using assms(2)
proof (induction i rule: less_induct)
  case (less i)
  show ?case
  proof (cases "i = 0")
    case True
    then show ?thesis by simp
  next
    case False
    then have "f (xs ! (first + i)) \<le> f (xs ! (first + (i - 1) div 2))"
      using assms(1) less.prems by (simp add: heap_from_def)
    moreover have "(i - 1) div 2 < i" "(i - 1) div 2 < len" using False less.prems by auto
    ultimately show ?thesis using less.IH [of "(i - 1) div 2"] by (meson order_trans)
  qed
qed


text \<open>A permutation that leaves everything outside a range alone permutes the range.\<close>

lemma range_perm_nth:
  assumes "length ys = length xs" "mset ys = mset xs"
    and "\<forall>i. i < a \<or> b \<le> i \<longrightarrow> ys ! i = xs ! i"
    and "a \<le> j" "j < b" "b \<le> length xs"
  shows "\<exists>j'. a \<le> j' \<and> j' < b \<and> ys ! j = xs ! j'"
proof -
  let ?mid = "\<lambda>zs. take (b - a) (drop a zs)"
  have split: "\<And>zs::'a list. zs = take a zs @ ?mid zs @ drop b zs"
  proof -
    fix zs :: "'a list"
    have "drop (b - a) (drop a zs) = drop b zs" using assms(4,5) by simp
    then have "?mid zs @ drop b zs = drop a zs" by (metis append_take_drop_id)
    then show "zs = take a zs @ ?mid zs @ drop b zs" by simp
  qed
  have t: "take a ys = take a xs"
    using assms(1,3) by (intro nth_equalityI) auto
  have d: "drop b ys = drop b xs"
    using assms(1,3,6) by (intro nth_equalityI) auto
  have "mset (take a ys) + mset (?mid ys) + mset (drop b ys)
          = mset (take a xs) + mset (?mid xs) + mset (drop b xs)"
    using assms(2) split [of xs] split [of ys] by (metis mset_append add.assoc)
  then have "mset (?mid ys) = mset (?mid xs)" using t d by simp
  then have "set (?mid ys) = set (?mid xs)" by (rule mset_eq_setD)
  moreover have "ys ! j = ?mid ys ! (j - a)" "j - a < length (?mid ys)"
    using assms(1,4,5,6) by auto
  ultimately have "ys ! j \<in> set (?mid xs)" by (metis nth_mem)
  then obtain k where k: "k < length (?mid xs)" "?mid xs ! k = ys ! j"
    by (auto simp: in_set_conv_nth)
  then have "k < b - a" "xs ! (a + k) = ys ! j" using assms(6) by auto
  then show ?thesis by (intro exI [of _ "a + k"]) auto
qed

lemma pop_heap_correct:
  fixes f :: "'a \<Rightarrow> 'k::linorder"
  assumes "heap_from f xs first (L - first) 0" "first + 2 \<le> L" "L \<le> length xs"
  defines "ys \<equiv> pop_heap (\<lambda>a b. f a < f b) xs first (L - 1) (L - 1)"
  shows "heap_from f ys first (L - 1 - first) 0" and "length ys = length xs"
    and "\<forall>i. i < first \<or> L \<le> i \<longrightarrow> ys ! i = xs ! i" and "mset ys = mset xs"
    and "ys ! (L - 1) = xs ! first"
proof -
  let ?zs = "xs[L - 1 := xs ! first]"
  let ?len = "L - 1 - first"
  have ys: "ys = adjust_heap (\<lambda>a b. f a < f b) ?zs first 0 ?len (xs ! (L - 1))"
    by (simp add: ys_def pop_heap_def)
  have "heap_from f ?zs first ?len (Suc 0)"
    using assms(1,2) unfolding heap_from_def by (auto simp: nth_list_update)
  moreover have "0 < ?len" "first + ?len \<le> length ?zs" using assms(2,3) by auto
  ultimately have ah:
    "heap_from f ys first ?len 0" "length ys = length ?zs"
    "\<forall>i. i < first \<or> first + ?len \<le> i \<longrightarrow> ys ! i = ?zs ! i"
    "mset ys = mset (?zs[first + 0 := xs ! (L - 1)])"
    using adjust_heap_correct [of f ?zs first ?len 0 "xs ! (L - 1)"] unfolding ys by simp_all
  show "heap_from f ys first (L - 1 - first) 0" by (rule ah(1))
  show "length ys = length xs" using ah(2) by simp
  have e: "first + ?len = L - 1" using assms(2) by simp
  show "\<forall>i. i < first \<or> L \<le> i \<longrightarrow> ys ! i = xs ! i"
    using ah(3) assms(2) unfolding e by (auto simp: nth_list_update)
  show "ys ! (L - 1) = xs ! first"
    using ah(3) assms(2,3) unfolding e by (auto simp: nth_list_update)
  have "mset (xs[L - 1 := xs ! first, first := xs ! (L - 1)]) = mset xs"
    using assms(2,3) by (intro mset_swap) auto
  then show "mset ys = mset xs" using ah(4) by simp
qed

lemma sort_heap_correct:
  fixes f :: "'a \<Rightarrow> 'k::linorder"
  assumes "heap_from f xs first (L - first) 0" "first \<le> L" "L \<le> E" "E \<le> length xs"
    and "\<forall>i j. L \<le> i \<and> i \<le> j \<and> j < E \<longrightarrow> f (xs ! i) \<le> f (xs ! j)"
    and "\<forall>i j. first \<le> i \<and> i < L \<and> L \<le> j \<and> j < E \<longrightarrow> f (xs ! i) \<le> f (xs ! j)"
  shows "(\<forall>i j. first \<le> i \<and> i \<le> j \<and> j < E
            \<longrightarrow> f (sort_heap (\<lambda>a b. f a < f b) xs first L ! i)
                  \<le> f (sort_heap (\<lambda>a b. f a < f b) xs first L ! j))
           \<and> length (sort_heap (\<lambda>a b. f a < f b) xs first L) = length xs
           \<and> (\<forall>i. i < first \<or> L \<le> i \<longrightarrow> sort_heap (\<lambda>a b. f a < f b) xs first L ! i = xs ! i)
           \<and> mset (sort_heap (\<lambda>a b. f a < f b) xs first L) = mset xs"
  using assms
proof (induction "L - first" arbitrary: xs L rule: less_induct)
  case less
  show ?case
  proof (cases "1 < L - first")
    case False
    have run: "sort_heap (\<lambda>a b. f a < f b) xs first L = xs"
      using False by (subst sort_heap.simps) simp
    have "f (xs ! i) \<le> f (xs ! j)" if ij: "first \<le> i" "i \<le> j" "j < E" for i j
    proof (cases "L \<le> i")
      case True
      then show ?thesis using less.prems(5) ij by simp
    next
      case nl: False
      show ?thesis
      proof (cases "L \<le> j")
        case True
        then show ?thesis using less.prems(6) ij nl by simp
      next
        case False
        then have "i = j" using nl ij \<open>\<not> 1 < L - first\<close> by simp
        then show ?thesis by simp
      qed
    qed
    then show ?thesis unfolding run by simp
  next
    case True
    define zs where "zs = pop_heap (\<lambda>a b. f a < f b) xs first (L - 1) (L - 1)"
    have run: "sort_heap (\<lambda>a b. f a < f b) xs first L
                 = sort_heap (\<lambda>a b. f a < f b) zs first (L - 1)"
      using True by (subst sort_heap.simps) (simp add: zs_def)
    have l2: "first + 2 \<le> L" "L \<le> length xs" using True less.prems(3,4) by simp_all
    note ph = pop_heap_correct [OF less.prems(1) l2, of , folded zs_def]
    have old: "\<exists>i'. first \<le> i' \<and> i' < L \<and> zs ! i = xs ! i'" if "first \<le> i" "i < L" for i
      using range_perm_nth [OF ph(2,4,3) that l2(2)] .
    have mx: "f (xs ! i) \<le> f (xs ! first)" if "first \<le> i" "i < L" for i
      using heap_max [OF less.prems(1), of "i - first"] that by simp
    have suffix: "\<forall>i j. L - 1 \<le> i \<and> i \<le> j \<and> j < E \<longrightarrow> f (zs ! i) \<le> f (zs ! j)"
    proof (intro allI impI)
      fix i j assume ij: "L - 1 \<le> i \<and> i \<le> j \<and> j < E"
      show "f (zs ! i) \<le> f (zs ! j)"
      proof (cases "i = j")
        case True
        then show ?thesis by simp
      next
        case ne: False
        then have j: "L \<le> j" "zs ! j = xs ! j" using ij ph(3) by auto
        show ?thesis
        proof (cases "i = L - 1")
          case True
          then have "zs ! i = xs ! first" using ph(5) by simp
          then show ?thesis using j less.prems(6) l2(1) ij by simp
        next
          case False
          then have "L \<le> i" "zs ! i = xs ! i" using ij ph(3) by auto
          then show ?thesis using j less.prems(5) ij by simp
        qed
      qed
    qed
    have cross: "\<forall>i j. first \<le> i \<and> i < L - 1 \<and> L - 1 \<le> j \<and> j < E \<longrightarrow> f (zs ! i) \<le> f (zs ! j)"
    proof (intro allI impI)
      fix i j assume ij: "first \<le> i \<and> i < L - 1 \<and> L - 1 \<le> j \<and> j < E"
      then have "first \<le> i" "i < L" by auto
      from old [OF this] obtain i' where i': "first \<le> i'" "i' < L" "zs ! i = xs ! i'"
        by blast
      show "f (zs ! i) \<le> f (zs ! j)"
      proof (cases "j = L - 1")
        case True
        then show ?thesis using ph(5) i' mx by simp
      next
        case False
        then have "L \<le> j" "zs ! j = xs ! j" using ij ph(3) by auto
        then show ?thesis using less.prems(6) i' ij by simp
      qed
    qed
    have "L - 1 - first < L - first" "first \<le> L - 1" "L - 1 \<le> E" "E \<le> length zs"
      using l2 less.prems(3,4) ph(2) by simp_all
    note ih = less.hyps [OF this(1) ph(1) this(2,3,4) suffix cross]
    have "\<forall>i. i < first \<or> L \<le> i \<longrightarrow> sort_heap (\<lambda>a b. f a < f b) zs first (L - 1) ! i = xs ! i"
      using ih ph(3) by auto
    then show ?thesis unfolding run using ih ph(2,4) by simp
  qed
qed

lemma partial_sort_correct:
  fixes f :: "'a \<Rightarrow> 'k::linorder"
  assumes "first \<le> L" "L \<le> length xs"
  shows "(\<forall>i j. first \<le> i \<and> i \<le> j \<and> j < L
            \<longrightarrow> f (partial_sort (\<lambda>a b. f a < f b) xs first L L ! i)
                  \<le> f (partial_sort (\<lambda>a b. f a < f b) xs first L L ! j))
           \<and> length (partial_sort (\<lambda>a b. f a < f b) xs first L L) = length xs
           \<and> (\<forall>i. i < first \<or> L \<le> i \<longrightarrow> partial_sort (\<lambda>a b. f a < f b) xs first L L ! i = xs ! i)
           \<and> mset (partial_sort (\<lambda>a b. f a < f b) xs first L L) = mset xs"
proof -
  let ?hs = "make_heap (\<lambda>a b. f a < f b) xs first L"
  have run: "partial_sort (\<lambda>a b. f a < f b) xs first L L = sort_heap (\<lambda>a b. f a < f b) ?hs first L"
    by (simp add: partial_sort_def heap_select_def heap_select_loop.simps)
  note mh = make_heap_correct [OF assms, of f]
  have h: "heap_from f ?hs first (L - first) 0" "L \<le> L" "L \<le> length ?hs"
    using mh assms(2) by simp_all
  have e1: "\<forall>i j. L \<le> i \<and> i \<le> j \<and> j < L \<longrightarrow> f (?hs ! i) \<le> f (?hs ! j)" by auto
  have e2: "\<forall>i j. first \<le> i \<and> i < L \<and> L \<le> j \<and> j < L \<longrightarrow> f (?hs ! i) \<le> f (?hs ! j)" by auto
  note sh = sort_heap_correct [OF h(1) assms(1) h(2,3) e1 e2]
  have "\<forall>i. i < first \<or> L \<le> i \<longrightarrow> sort_heap (\<lambda>a b. f a < f b) ?hs first L ! i = xs ! i"
    using sh mh by auto
  moreover have "length (sort_heap (\<lambda>a b. f a < f b) ?hs first L) = length xs"
    "mset (sort_heap (\<lambda>a b. f a < f b) ?hs first L) = mset xs"
    using sh mh by simp_all
  ultimately show ?thesis unfolding run using sh by blast
qed

subsection \<open>Introsort\<close>

lemma introsort_loop_correct:
  fixes f :: "'a \<Rightarrow> 'k::linorder"
  assumes "first \<le> lst" "lst \<le> length xs"
  shows "\<exists>ys. introsort_loop (\<lambda>a b. f a < f b) xs first lst d = Some ys
           \<and> length ys = length xs \<and> mset ys = mset xs
           \<and> (\<forall>i. i < first \<or> lst \<le> i \<longrightarrow> ys ! i = xs ! i)
           \<and> (\<forall>j. first + 16 \<le> j \<and> j < lst
                \<longrightarrow> (\<exists>i. first \<le> i \<and> i < j \<and> f (ys ! i) \<le> f (ys ! j)))"
  using assms
proof (induction d arbitrary: xs first lst)
  case 0
  show ?case
  proof (cases "16 < lst - first")
    case False
    then show ?thesis by (intro exI [of _ xs]) auto
  next
    case True
    let ?ys = "partial_sort (\<lambda>a b. f a < f b) xs first lst lst"
    note ps = partial_sort_correct [OF 0, of f]
    have "\<exists>i. first \<le> i \<and> i < j \<and> f (?ys ! i) \<le> f (?ys ! j)"
      if "first + 16 \<le> j \<and> j < lst" for j
      using ps that by (intro exI [of _ "j - 1"]) auto
    then show ?thesis using True ps by (intro exI [of _ ?ys]) simp
  qed
next
  case (Suc d)
  show ?case
  proof (cases "16 < lst - first")
    case False
    then show ?thesis by (intro exI [of _ xs]) auto
  next
    case True
    from unguarded_partition_pivot_correct [OF True Suc.prems(2), of f] obtain xs1 c where
      p: "unguarded_partition_pivot (\<lambda>a b. f a < f b) xs first lst = Some (xs1, c)"
         "first < c" "c \<le> lst" "length xs1 = length xs" "mset xs1 = mset xs"
         "\<forall>i. i < first \<or> lst \<le> i \<longrightarrow> xs1 ! i = xs ! i"
         "\<forall>i j. first \<le> i \<and> i < c \<and> c \<le> j \<and> j < lst \<longrightarrow> f (xs1 ! i) \<le> f (xs1 ! j)"
      by blast
    have "lst \<le> length xs1" using Suc.prems(2) p(4) by simp
    from Suc.IH [OF p(3) this] obtain xs2 where
      r1: "introsort_loop (\<lambda>a b. f a < f b) xs1 c lst d = Some xs2"
          "length xs2 = length xs1" "mset xs2 = mset xs1"
          "\<forall>i. i < c \<or> lst \<le> i \<longrightarrow> xs2 ! i = xs1 ! i"
      by blast
    have "first \<le> c" "c \<le> length xs2" using p(2,3,4) r1(2) Suc.prems(2) by simp_all
    from Suc.IH [OF this] obtain ys where
      r2: "introsort_loop (\<lambda>a b. f a < f b) xs2 first c d = Some ys"
          "length ys = length xs2" "mset ys = mset xs2"
          "\<forall>i. i < first \<or> c \<le> i \<longrightarrow> ys ! i = xs2 ! i"
          "\<forall>j. first + 16 \<le> j \<and> j < c
             \<longrightarrow> (\<exists>i. first \<le> i \<and> i < j \<and> f (ys ! i) \<le> f (ys ! j))"
      by blast
    have run: "introsort_loop (\<lambda>a b. f a < f b) xs first lst (Suc d) = Some ys"
      using True p(1) r1(1) r2(1) by simp
    have frame: "\<forall>i. i < first \<or> lst \<le> i \<longrightarrow> ys ! i = xs ! i"
      using p(2,3,6) r1(4) r2(4) by (metis less_imp_le less_le_trans order_trans)
    have "c \<le> length xs2" "lst \<le> length xs1" using p(3,4) r1(2) Suc.prems(2) by simp_all
    have low: "\<exists>i'. first \<le> i' \<and> i' < c \<and> ys ! first = xs1 ! i'"
    proof -
      from range_perm_nth [OF r2(2,3,4) order_refl p(2) \<open>c \<le> length xs2\<close>]
      obtain i' where "first \<le> i'" "i' < c" "ys ! first = xs2 ! i'" by auto
      then show ?thesis using r1(4) by (intro exI [of _ i']) simp
    qed
    have high: "\<exists>j'. c \<le> j' \<and> j' < lst \<and> ys ! j = xs1 ! j'" if j: "c \<le> j" "j < lst" for j
    proof -
      from range_perm_nth [OF r1(2,3,4) j \<open>lst \<le> length xs1\<close>]
      obtain j' where "c \<le> j'" "j' < lst" "xs2 ! j = xs1 ! j'" by auto
      then show ?thesis using r2(4) j by (intro exI [of _ j']) simp
    qed
    have q: "\<exists>i. first \<le> i \<and> i < j \<and> f (ys ! i) \<le> f (ys ! j)"
      if j: "first + 16 \<le> j \<and> j < lst" for j
    proof (cases "j < c")
      case True
      then show ?thesis using r2(5) j by simp
    next
      case False
      then have "c \<le> j" "j < lst" using j by simp_all
      from high [OF this] low p(7) have "f (ys ! first) \<le> f (ys ! j)" by auto
      then show ?thesis using j by (intro exI [of _ first]) simp
    qed
    show ?thesis
      using run r2(2) r1(2) p(4) r2(3) r1(3) p(5) frame q by (intro exI [of _ ys]) simp
  qed
qed

text \<open>\<open>std::sort\<close> with a comparison by a key returns, and returns the elements sorted by the
  key.\<close>

lemma std_sort_correct:
  fixes f :: "'a \<Rightarrow> 'k::linorder"
  shows "\<exists>S. std_sort (\<lambda>a b. f a < f b) xs = Some S \<and> sorted (map f S) \<and> mset S = mset xs"
proof (cases "xs = []")
  case True
  then show ?thesis by (simp add: std_sort_def)
next
  case False
  from introsort_loop_correct [of 0 "length xs" xs f "lg (length xs) * 2"] obtain ys where
    r: "introsort_loop (\<lambda>a b. f a < f b) xs 0 (length xs) (lg (length xs) * 2) = Some ys"
       "length ys = length xs" "mset ys = mset xs"
       "\<forall>j. 0 + 16 \<le> j \<and> j < length xs \<longrightarrow> (\<exists>i. 0 \<le> i \<and> i < j \<and> f (ys ! i) \<le> f (ys ! j))"
    by auto
  have "\<forall>j. 16 \<le> j \<and> j < length ys \<longrightarrow> (\<exists>i<j. f (ys ! i) \<le> f (ys ! j))"
    using r(2,4) by simp
  from final_insertion_sort_correct [OF this] obtain S where
    "final_insertion_sort (\<lambda>a b. f a < f b) ys 0 (length ys) = Some S"
    "sorted (map f S)" "mset S = mset ys"
    by blast
  then show ?thesis using False r(1,2,3) by (simp add: std_sort_def)
qed

subsection \<open>The stored sequence\<close>

lemma by_priority_less: "by_priority = (\<lambda>a b. getPriority a < getPriority b)"
  by (intro ext) (simp add: by_priority_def)

lemma std_sort_by_priority:
  "\<exists>S. std_sort by_priority xs = Some S
     \<and> sorted_wrt (\<lambda>a b. getPriority a \<le> getPriority b) S \<and> mset S = mset xs
     \<and> (length xs \<le> 16 \<longrightarrow>
          (\<forall>k. filter (\<lambda>x. getPriority x = k) S = filter (\<lambda>x. getPriority x = k) xs))"
proof -
  from std_sort_correct [of getPriority xs] obtain S where
    s: "std_sort by_priority xs = Some S" "sorted (map getPriority S)" "mset S = mset xs"
    unfolding by_priority_less by blast
  have "\<forall>k. filter (\<lambda>x. getPriority x = k) S = filter (\<lambda>x. getPriority x = k) xs"
    if "length xs \<le> 16"
    using std_sort_small [OF that, of getPriority] s(1) unfolding by_priority_less by auto
  moreover have "sorted_wrt (\<lambda>a b. getPriority a \<le> getPriority b) S"
    using s(2) by (simp add: sorted_map)
  ultimately show ?thesis using s(1,3) by blast
qed

lemma HFTServer_addInterceptor_order:
  "\<exists>srv'. HFTServer_addInterceptor srv i = Some srv'
     \<and> sorted_wrt (\<lambda>a b. getPriority a \<le> getPriority b) (interceptors srv')
     \<and> mset (interceptors srv') = mset (interceptors srv) + {#i#}
     \<and> services srv' = services srv
     \<and> (length (interceptors srv) < 16 \<longrightarrow>
          (\<forall>k. filter (\<lambda>x. getPriority x = k) (interceptors srv')
                = filter (\<lambda>x. getPriority x = k) (interceptors srv @ [i])))"
proof -
  from std_sort_by_priority [of "interceptors srv @ [i]"] obtain S where
    s: "std_sort by_priority (interceptors srv @ [i]) = Some S"
       "sorted_wrt (\<lambda>a b. getPriority a \<le> getPriority b) S"
       "mset S = mset (interceptors srv @ [i])"
       "length (interceptors srv @ [i]) \<le> 16 \<longrightarrow>
          (\<forall>k. filter (\<lambda>x. getPriority x = k) S
                = filter (\<lambda>x. getPriority x = k) (interceptors srv @ [i]))"
    by blast
  have "HFTServer_addInterceptor srv i = Some (srv\<lparr>interceptors := S\<rparr>)"
    using s(1) by (simp add: HFTServer_addInterceptor_def)
  moreover have "length (interceptors srv) < 16 \<longrightarrow>
          (\<forall>k. filter (\<lambda>x. getPriority x = k) S
                = filter (\<lambda>x. getPriority x = k) (interceptors srv @ [i]))"
    using s(4) by simp
  ultimately show ?thesis
    using s(2,3) by (intro exI [of _ "srv\<lparr>interceptors := S\<rparr>"]) simp
qed

lemma HFTServer_addInterceptors_stable:
  "length (interceptors srv) + length js \<le> 16 \<Longrightarrow>
     \<exists>srv'. HFTServer_addInterceptors srv js = Some srv'
       \<and> (\<forall>k. filter (\<lambda>x. getPriority x = k) (interceptors srv')
                = filter (\<lambda>x. getPriority x = k) (interceptors srv @ js))"
proof (induction js arbitrary: srv)
  case Nil
  then show ?case by simp
next
  case (Cons i js)
  from HFTServer_addInterceptor_order [of srv i] obtain srv1 where
    a: "HFTServer_addInterceptor srv i = Some srv1"
       "mset (interceptors srv1) = mset (interceptors srv) + {#i#}"
       "length (interceptors srv) < 16 \<longrightarrow>
          (\<forall>k. filter (\<lambda>x. getPriority x = k) (interceptors srv1)
                = filter (\<lambda>x. getPriority x = k) (interceptors srv @ [i]))"
    by blast
  have "size (mset (interceptors srv1)) = size (mset (interceptors srv) + {#i#})"
    using a(2) by simp
  then have len: "length (interceptors srv1) = Suc (length (interceptors srv))"
    by simp
  then have "length (interceptors srv1) + length js \<le> 16" using Cons.prems by simp
  from Cons.IH [OF this] obtain srv' where
    b: "HFTServer_addInterceptors srv1 js = Some srv'"
       "\<forall>k. filter (\<lambda>x. getPriority x = k) (interceptors srv')
             = filter (\<lambda>x. getPriority x = k) (interceptors srv1 @ js)"
    by blast
  have c: "\<forall>k. filter (\<lambda>x. getPriority x = k) (interceptors srv1)
                = filter (\<lambda>x. getPriority x = k) (interceptors srv @ [i])"
    using a(3) Cons.prems by simp
  have "filter (\<lambda>x. getPriority x = k) (interceptors srv')
          = filter (\<lambda>x. getPriority x = k) (interceptors srv @ i # js)" for k
  proof -
    have "filter (\<lambda>x. getPriority x = k) (interceptors srv')
            = filter (\<lambda>x. getPriority x = k) (interceptors srv1)
              @ filter (\<lambda>x. getPriority x = k) js"
      using b(2) by simp
    also have "\<dots> = filter (\<lambda>x. getPriority x = k) (interceptors srv @ [i])
              @ filter (\<lambda>x. getPriority x = k) js"
      using c by simp
    finally show ?thesis by simp
  qed
  then show ?case using a(1) b(1) by simp
qed

lemma SocketServer_processRequest_order:
  "\<exists>is'. SocketServer_processRequest D clk (SocketServer_addInterceptor srv i) request w
            = Some (processRequest D clk (srv\<lparr>interceptors := is'\<rparr>) request w)
     \<and> sorted_wrt (\<lambda>a b. getPriority a \<le> getPriority b) is'
     \<and> mset is' = mset (interceptors srv) + {#i#}
     \<and> (length (interceptors srv) < 16 \<longrightarrow>
          (\<forall>k. filter (\<lambda>x. getPriority x = k) is'
                = filter (\<lambda>x. getPriority x = k) (interceptors srv @ [i])))"
proof -
  from std_sort_by_priority [of "interceptors srv @ [i]"] obtain S where
    s: "std_sort by_priority (interceptors srv @ [i]) = Some S"
       "sorted_wrt (\<lambda>a b. getPriority a \<le> getPriority b) S"
       "mset S = mset (interceptors srv @ [i])"
       "length (interceptors srv @ [i]) \<le> 16 \<longrightarrow>
          (\<forall>k. filter (\<lambda>x. getPriority x = k) S
                = filter (\<lambda>x. getPriority x = k) (interceptors srv @ [i]))"
    by blast
  have "SocketServer_processRequest D clk (SocketServer_addInterceptor srv i) request w
          = Some (processRequest D clk (srv\<lparr>interceptors := S\<rparr>) request w)"
    using s(1) by (simp add: SocketServer_processRequest_def SocketServer_addInterceptor_def)
  moreover have "length (interceptors srv) < 16 \<longrightarrow>
          (\<forall>k. filter (\<lambda>x. getPriority x = k) S
                = filter (\<lambda>x. getPriority x = k) (interceptors srv @ [i]))"
    using s(4) by simp
  ultimately show ?thesis
    using s(2,3) by (intro exI [of _ S]) simp
qed

text \<open>
  C6 (amended). Every \<open>addInterceptor\<close> call of the HFT server returns and leaves the
  interceptors stored before and the new one, in ascending order of priority. While at most
  16 interceptors are stored, interceptors of equal priority stay in the order of their
  insertion: after a call as well as after several calls in a row. The other server appends on
  \<open>addInterceptor\<close> and sorts at the start of every \<open>processRequest\<close>, whose pipeline
  runs on the registered interceptors in ascending order of priority, with the same order among
  equal priorities.
\<close>

theorem addInterceptor_sorted:
  "(\<exists>srv'. HFTServer_addInterceptor srv i = Some srv'
      \<and> sorted_wrt (\<lambda>a b. getPriority a \<le> getPriority b) (interceptors srv')
      \<and> mset (interceptors srv') = mset (interceptors srv) + {#i#}
      \<and> services srv' = services srv
      \<and> (length (interceptors srv) < 16 \<longrightarrow>
           (\<forall>k. filter (\<lambda>x. getPriority x = k) (interceptors srv')
                 = filter (\<lambda>x. getPriority x = k) (interceptors srv @ [i]))))
   \<and> (length (interceptors srv) + length js \<le> 16 \<longrightarrow>
        (\<exists>srv'. HFTServer_addInterceptors srv js = Some srv'
           \<and> (\<forall>k. filter (\<lambda>x. getPriority x = k) (interceptors srv')
                    = filter (\<lambda>x. getPriority x = k) (interceptors srv @ js))))
   \<and> (\<exists>is'. SocketServer_processRequest D clk (SocketServer_addInterceptor srv i) request w
              = Some (processRequest D clk (srv\<lparr>interceptors := is'\<rparr>) request w)
      \<and> sorted_wrt (\<lambda>a b. getPriority a \<le> getPriority b) is'
      \<and> mset is' = mset (interceptors srv) + {#i#}
      \<and> (length (interceptors srv) < 16 \<longrightarrow>
           (\<forall>k. filter (\<lambda>x. getPriority x = k) is'
                 = filter (\<lambda>x. getPriority x = k) (interceptors srv @ [i]))))"
  using HFTServer_addInterceptor_order [of srv i] HFTServer_addInterceptors_stable [of srv js]
    SocketServer_processRequest_order [of D clk srv i request w]
  by blast

theorem addInterceptor_sorted_witness:
  "HFTServer_addInterceptor
     \<lparr>services = [EchoService],
        interceptors = [AuthenticationInterceptor ''secret123'', LoggingInterceptor 0,
                        ValidationInterceptor]\<rparr>
     (AuthenticationInterceptor ''other'')
     = Some \<lparr>services = [EchoService], interceptors =
        [AuthenticationInterceptor ''secret123'', AuthenticationInterceptor ''other'',
         LoggingInterceptor 0, ValidationInterceptor]\<rparr>
   \<and> sorted_wrt (\<lambda>a b. getPriority a \<le> getPriority b)
        [AuthenticationInterceptor ''secret123'', AuthenticationInterceptor ''other'',
         LoggingInterceptor 0, ValidationInterceptor]
   \<and> length [AuthenticationInterceptor ''secret123'', LoggingInterceptor 0,
              ValidationInterceptor] < 16
   \<and> filter (\<lambda>x. getPriority x = 0)
        [AuthenticationInterceptor ''secret123'', AuthenticationInterceptor ''other'',
         LoggingInterceptor 0, ValidationInterceptor]
      = [AuthenticationInterceptor ''secret123'', AuthenticationInterceptor ''other'']
   \<and> length [AuthenticationInterceptor ''secret123'', LoggingInterceptor 0,
              ValidationInterceptor]
       + length [AuthenticationInterceptor ''other'', LoggingInterceptor 1] \<le> 16
   \<and> HFTServer_addInterceptors
        \<lparr>services = [EchoService],
        interceptors = [AuthenticationInterceptor ''secret123'', LoggingInterceptor 0,
                        ValidationInterceptor]\<rparr>
        [AuthenticationInterceptor ''other'', LoggingInterceptor 1]
      = Some \<lparr>services = [EchoService], interceptors =
        [AuthenticationInterceptor ''secret123'', AuthenticationInterceptor ''other'',
         LoggingInterceptor 0, LoggingInterceptor 1, ValidationInterceptor]\<rparr>
   \<and> filter (\<lambda>x. getPriority x = 1)
        [AuthenticationInterceptor ''secret123'', AuthenticationInterceptor ''other'',
         LoggingInterceptor 0, LoggingInterceptor 1, ValidationInterceptor]
      = [LoggingInterceptor 0, LoggingInterceptor 1]
   \<and> SocketServer_processRequest example_ops clock0
        (SocketServer_addInterceptor
           \<lparr>services = [EchoService],
        interceptors = [AuthenticationInterceptor ''secret123'', LoggingInterceptor 0,
                        ValidationInterceptor]\<rparr>
           (AuthenticationInterceptor ''other''))
        ''TOKEN:secret123 ECHO Hi'' world0
      = Some (processRequest example_ops clock0
                \<lparr>services = [EchoService], interceptors =
        [AuthenticationInterceptor ''secret123'', AuthenticationInterceptor ''other'',
         LoggingInterceptor 0, ValidationInterceptor]\<rparr>
                ''TOKEN:secret123 ECHO Hi'' world0)"
proof -
  let ?s0 = "\<lparr>services = [EchoService],
        interceptors = [AuthenticationInterceptor ''secret123'', LoggingInterceptor 0,
                        ValidationInterceptor]\<rparr>"
  let ?i = "AuthenticationInterceptor ''other''"
  let ?js = "[AuthenticationInterceptor ''other'', LoggingInterceptor 1]"
  let ?is1 = "[AuthenticationInterceptor ''secret123'', AuthenticationInterceptor ''other'',
         LoggingInterceptor 0, ValidationInterceptor]"
  let ?is2 = "[AuthenticationInterceptor ''secret123'', AuthenticationInterceptor ''other'',
         LoggingInterceptor 0, LoggingInterceptor 1, ValidationInterceptor]"
  let ?s1 = "\<lparr>services = [EchoService], interceptors = ?is1\<rparr>"
  let ?s2 = "\<lparr>services = [EchoService], interceptors = ?is2\<rparr>"
  let ?q = "''TOKEN:secret123 ECHO Hi''"
  have s1: "std_sort by_priority (interceptors ?s0 @ [?i]) = Some ?is1"
    by code_simp
  have a: "HFTServer_addInterceptor ?s0 ?i = Some ?s1"
    using s1 by (simp add: HFTServer_addInterceptor_def)
  have b: "HFTServer_addInterceptors ?s0 ?js = Some ?s2"
    by code_simp
  have c: "SocketServer_processRequest example_ops clock0 (SocketServer_addInterceptor ?s0 ?i)
             ?q world0
           = Some (processRequest example_ops clock0 ?s1 ?q world0)"
    using s1 by (simp add: SocketServer_processRequest_def SocketServer_addInterceptor_def)
  note inst = addInterceptor_sorted [of ?s0 ?i ?js example_ops clock0 ?q world0]
  have l: "length (interceptors ?s0) < 16" "length (interceptors ?s0) + length ?js \<le> 16"
    by simp_all
  from inst a l(1) have d: "sorted_wrt (\<lambda>a b. getPriority a \<le> getPriority b) ?is1"
    and f: "filter (\<lambda>x. getPriority x = 0) ?is1
             = filter (\<lambda>x. getPriority x = 0) (interceptors ?s0 @ [?i])"
    by auto
  from inst b l(2) have g: "filter (\<lambda>x. getPriority x = 1) ?is2
             = filter (\<lambda>x. getPriority x = 1) (interceptors ?s0 @ ?js)"
    by auto
  have f': "filter (\<lambda>x. getPriority x = 0) ?is1
          = [AuthenticationInterceptor ''secret123'', AuthenticationInterceptor ''other'']"
    using f by simp
  have g': "filter (\<lambda>x. getPriority x = 1) ?is2 = [LoggingInterceptor 0, LoggingInterceptor 1]"
    using g by simp
  show ?thesis
    by (intro conjI a d f' g' b c) simp_all
qed

text \<open>
  The claim as stated keeps interceptors of equal priority in the order of their insertion
  whatever their number. \<open>std::sort\<close> does not: on more than 16 elements it partitions, and
  the partition swaps equal elements. After 17 authentication interceptors, all of priority 0,
  have been registered one after another, the ninth stands first and the first stands tenth;
  the first 16 calls have kept the order, the 17th breaks it. And in the other server the
  sequence stored after \<open>addInterceptor\<close> is in the order of insertion, sorted only by the
  next \<open>processRequest\<close>.
\<close>

theorem equal_priority_order_counterexample:
  "HFTServer_addInterceptors \<lparr>services = [], interceptors = []\<rparr>
     (map AuthenticationInterceptor
        [''a1'', ''a2'', ''a3'', ''a4'', ''a5'', ''a6'', ''a7'', ''a8'', ''a9'', ''a10'',
         ''a11'', ''a12'', ''a13'', ''a14'', ''a15'', ''a16''])
     = Some \<lparr>services = [],
              interceptors = map AuthenticationInterceptor
                [''a1'', ''a2'', ''a3'', ''a4'', ''a5'', ''a6'', ''a7'', ''a8'', ''a9'', ''a10'',
                 ''a11'', ''a12'', ''a13'', ''a14'', ''a15'', ''a16'']\<rparr>
   \<and> HFTServer_addInterceptor
       \<lparr>services = [],
          interceptors = map AuthenticationInterceptor
            [''a1'', ''a2'', ''a3'', ''a4'', ''a5'', ''a6'', ''a7'', ''a8'', ''a9'', ''a10'',
             ''a11'', ''a12'', ''a13'', ''a14'', ''a15'', ''a16'']\<rparr>
       (AuthenticationInterceptor ''a17'')
     = Some \<lparr>services = [],
              interceptors = map AuthenticationInterceptor
                [''a9'', ''a17'', ''a16'', ''a15'', ''a14'', ''a13'', ''a12'', ''a11'', ''a10'',
                 ''a1'', ''a8'', ''a7'', ''a6'', ''a5'', ''a4'', ''a3'', ''a2'']\<rparr>
   \<and> getPriority (AuthenticationInterceptor ''a1'') = getPriority (AuthenticationInterceptor ''a9'')
   \<and> interceptors (SocketServer_addInterceptor
         \<lparr>services = [], interceptors = [ValidationInterceptor]\<rparr>
         (AuthenticationInterceptor ''a''))
       = [ValidationInterceptor, AuthenticationInterceptor ''a'']
   \<and> getPriority (AuthenticationInterceptor ''a'') < getPriority ValidationInterceptor"
proof -
  have a: "HFTServer_addInterceptors \<lparr>services = [], interceptors = []\<rparr>
     (map AuthenticationInterceptor
        [''a1'', ''a2'', ''a3'', ''a4'', ''a5'', ''a6'', ''a7'', ''a8'', ''a9'', ''a10'',
         ''a11'', ''a12'', ''a13'', ''a14'', ''a15'', ''a16''])
     = Some \<lparr>services = [],
              interceptors = map AuthenticationInterceptor
                [''a1'', ''a2'', ''a3'', ''a4'', ''a5'', ''a6'', ''a7'', ''a8'', ''a9'', ''a10'',
                 ''a11'', ''a12'', ''a13'', ''a14'', ''a15'', ''a16'']\<rparr>"
    by code_simp
  have b: "HFTServer_addInterceptor
       \<lparr>services = [],
          interceptors = map AuthenticationInterceptor
            [''a1'', ''a2'', ''a3'', ''a4'', ''a5'', ''a6'', ''a7'', ''a8'', ''a9'', ''a10'',
             ''a11'', ''a12'', ''a13'', ''a14'', ''a15'', ''a16'']\<rparr>
       (AuthenticationInterceptor ''a17'')
     = Some \<lparr>services = [],
              interceptors = map AuthenticationInterceptor
                [''a9'', ''a17'', ''a16'', ''a15'', ''a14'', ''a13'', ''a12'', ''a11'', ''a10'',
                 ''a1'', ''a8'', ''a7'', ''a6'', ''a5'', ''a4'', ''a3'', ''a2'']\<rparr>"
    by code_simp
  show ?thesis
    using a b by (simp add: SocketServer_addInterceptor_def)
qed

end
